theory Spec2Isabelle
  imports Main
begin

section \<open>C strings and the libc functions the server uses\<close>

text \<open>
  A C string is modelled by the list of its bytes before the terminating NUL; the
  terminator itself is not part of the list.  A pointer into a string is the index of
  the byte it points at, or the suffix that starts there.
\<close>

definition NUL :: char where
  "NUL = CHR 0x00"

definition CRLF :: string where
  "CRLF = [CHR 0x0D, CHR 0x0A]"

text \<open>The string that starts at the beginning of a byte buffer: everything before the first NUL.\<close>

definition cstr :: "string \<Rightarrow> string" where
  "cstr bytes = takeWhile (\<lambda>c. c \<noteq> NUL) bytes"

text \<open>\<open>strchr(s, c)\<close>: the index of the first \<open>c\<close> in \<open>s\<close>, \<open>None\<close> for the null pointer.\<close>

fun strchr :: "string \<Rightarrow> char \<Rightarrow> nat option" where
  "strchr [] c = None"
| "strchr (x # xs) c = (if x = c then Some 0 else map_option Suc (strchr xs c))"

text \<open>\<open>strrchr(s, c)\<close>: the index of the last \<open>c\<close> in \<open>s\<close>.\<close>

fun strrchr :: "string \<Rightarrow> char \<Rightarrow> nat option" where
  "strrchr [] c = None"
| "strrchr (x # xs) c =
     (case strrchr xs c of
        Some i \<Rightarrow> Some (Suc i)
      | None \<Rightarrow> if x = c then Some 0 else None)"

text \<open>\<open>tolower\<close> in the C locale: only the 26 ASCII capitals change.\<close>

definition tolower :: "char \<Rightarrow> char" where
  "tolower c =
     (let n = (of_char c :: nat)
      in if 65 \<le> n \<and> n \<le> 90 then char_of (n + 32) else c)"

text \<open>
  \<open>strcasecmp(a, b)\<close>: the difference of the first pair of bytes that differ after
  \<open>tolower\<close>; a string that has ended is read as its terminator, byte 0.
\<close>

fun strcasecmp :: "string \<Rightarrow> string \<Rightarrow> int" where
  "strcasecmp [] [] = 0"
| "strcasecmp [] (b # bs) = - int (of_char (tolower b))"
| "strcasecmp (a # as) [] = int (of_char (tolower a))"
| "strcasecmp (a # as) (b # bs) =
     (let d = int (of_char (tolower a)) - int (of_char (tolower b))
      in if d \<noteq> 0 then d else strcasecmp as bs)"

text \<open>
  \<open>snprintf(buf, n, ...)\<close> where the formatted text is \<open>s\<close>: at most \<open>n - 1\<close>
  bytes and a terminator are stored; with \<open>n = 0\<close> nothing is stored, and the
  buffer holds no defined string (\<open>None\<close>).
\<close>

definition snprintf :: "nat \<Rightarrow> string \<Rightarrow> string option" where
  "snprintf n s = (if n = 0 then None else Some (take (n - 1) s))"

text \<open>
  \<open>strncpy(dst, src, n)\<close> for a source without NUL: the bytes of \<open>src\<close> padded with
  NULs up to \<open>n\<close>.  When \<open>n \<le> length src\<close> no terminator is stored and \<open>dst\<close> holds
  no defined string.
\<close>

definition strncpy :: "string \<Rightarrow> nat \<Rightarrow> string option" where
  "strncpy src n = (if length src < n then Some src else None)"

section \<open>Configuration constants\<close>

definition SPIFFS_BASE_PATH :: string where
  "SPIFFS_BASE_PATH = ''/spiffs''"

definition FALLBACK_PATH :: string where
  "FALLBACK_PATH = ''/spiffs/index.html''"

definition RECV_BUF_LEN :: nat where
  "RECV_BUF_LEN = 1024"

definition FILE_CHUNK :: nat where
  "FILE_CHUNK = 1024"

text \<open>\<open>sizeof(tmp)\<close> in \<open>sanitize_path\<close>, and the size of the path buffers of \<open>handle_client\<close>.\<close>

definition TMP_SIZE :: nat where
  "TMP_SIZE = 256"

definition PATH_BUF_SIZE :: nat where
  "PATH_BUF_SIZE = 256"

definition HEADER_SIZE :: nat where
  "HEADER_SIZE = 256"

section \<open>get\_mime\_type\<close>

definition get_mime_type :: "string \<Rightarrow> string" where
  "get_mime_type path =
     (case strrchr path (CHR ''.'') of
        None \<Rightarrow> ''application/octet-stream''
      | Some dot \<Rightarrow>
          (let ext = drop (dot + 1) path
           in if strcasecmp ext ''html'' = 0 then ''text/html; charset=utf-8''
              else if strcasecmp ext ''htm'' = 0 then ''text/html; charset=utf-8''
              else if strcasecmp ext ''css'' = 0 then ''text/css''
              else if strcasecmp ext ''js'' = 0 then ''application/javascript''
              else if strcasecmp ext ''json'' = 0 then ''application/json''
              else if strcasecmp ext ''png'' = 0 then ''image/png''
              else if strcasecmp ext ''jpg'' = 0 then ''image/jpeg''
              else if strcasecmp ext ''jpeg'' = 0 then ''image/jpeg''
              else if strcasecmp ext ''gif'' = 0 then ''image/gif''
              else if strcasecmp ext ''svg'' = 0 then ''image/svg+xml''
              else if strcasecmp ext ''ico'' = 0 then ''image/x-icon''
              else if strcasecmp ext ''txt'' = 0 then ''text/plain; charset=utf-8''
              else ''application/octet-stream''))"

section \<open>sanitize\_path\<close>

text \<open>
  The segment loop.  \<open>seg\<close> is the rest of the request path from the pointer \<open>seg\<close>
  on.  \<open>tmp\<close> is the string held in the zero-initialised array \<open>tmp\<close>; the index
  \<open>ti\<close> of the source is always its length, because every append ends with
  \<open>tmp[ti] = 0\<close>.  The function returns \<open>tmp\<close> as it is when the loop is left, by
  its condition or by \<open>break\<close>.
\<close>

function sanitize_loop :: "string \<Rightarrow> string \<Rightarrow> string" where
  "sanitize_loop seg tmp =
     (let ti = length tmp
      in if seg \<noteq> [] \<and> ti + 1 < TMP_SIZE then
           (let next = strchr seg (CHR ''/'');
                len = (case next of Some n \<Rightarrow> n | None \<Rightarrow> length seg);
                seg' = (case next of Some n \<Rightarrow> drop (n + 1) seg | None \<Rightarrow> drop len seg)
            in if len = 0 then sanitize_loop seg' tmp
               else if len = 2 \<and> seg ! 0 = CHR ''.'' \<and> seg ! 1 = CHR ''.'' then
                 sanitize_loop seg' tmp
               else if ti + len + 1 \<ge> TMP_SIZE then tmp
               else sanitize_loop seg'
                      ((if ti \<noteq> 0 then tmp @ ''/'' else tmp) @ take len seg))
         else tmp)"
  by pat_completeness auto
termination
proof (relation "measure (\<lambda>(seg, tmp). length seg)")
  show "wf (measure (\<lambda>(seg, tmp). length seg))" by simp
qed (auto split: option.splits)

declare sanitize_loop.simps [simp del]

text \<open>
  \<open>req_path\<close> is \<open>None\<close> for the null pointer.  The result is the string left in
  \<open>buf\<close>.
\<close>

definition sanitize_path :: "string option \<Rightarrow> nat \<Rightarrow> string option" where
  "sanitize_path req_path buflen =
     (case req_path of
        None \<Rightarrow> snprintf buflen (SPIFFS_BASE_PATH @ ''/'' @ ''index.html'')
      | Some rp \<Rightarrow>
          if rp = ''/'' then snprintf buflen (SPIFFS_BASE_PATH @ ''/'' @ ''index.html'')
          else
            (let p = (if rp \<noteq> [] \<and> rp ! 0 = CHR ''/'' then drop 1 rp else rp);
                 tmp = sanitize_loop p []
             in snprintf buflen
                  (SPIFFS_BASE_PATH @ ''/'' @ (if tmp \<noteq> [] then tmp else ''index.html''))))"

section \<open>parse\_request\_path\<close>

text \<open>
  \<open>req\<close> is the received buffer read as a C string.  \<open>size_t\<close> is 32 bits wide on
  the target, so \<open>pathbuflen - 1\<close> wraps to \<open>2^32 - 1\<close> for \<open>pathbuflen = 0\<close>; a copy that would not
  fit \<open>pathbuf\<close> is a write outside the buffer, with no defined result (\<open>None\<close>).
\<close>

definition parse_request_path :: "string \<Rightarrow> nat \<Rightarrow> string option" where
  "parse_request_path req pathbuflen =
     (case strchr req (CHR '' '') of
        None \<Rightarrow> strncpy ''/'' pathbuflen
      | Some sp1 \<Rightarrow>
          (case strchr (drop (sp1 + 1) req) (CHR '' '') of
             None \<Rightarrow> strncpy ''/'' pathbuflen
           | Some d \<Rightarrow>
               (let len = d;
                    len = (if len \<ge> pathbuflen
                           then (if pathbuflen = 0 then 4294967295 else pathbuflen - 1)
                           else len)
                in if len < pathbuflen then Some (take len (drop (sp1 + 1) req)) else None)))"

section \<open>Formatting numbers\<close>

text \<open>The decimal digits of a natural number, as \<open>%d\<close> prints them.\<close>

fun dec_digits :: "nat \<Rightarrow> string" where
  "dec_digits n =
     (if n < 10 then [char_of (48 + n)]
      else dec_digits (n div 10) @ [char_of (48 + n mod 10)])"

declare dec_digits.simps [simp del]

text \<open>\<open>%d\<close> and \<open>%ld\<close>.\<close>

definition fmt_d :: "int \<Rightarrow> string" where
  "fmt_d i = (if i < 0 then CHR ''-'' # dec_digits (nat (- i)) else dec_digits (nat i))"

text \<open>
  \<open>ftell\<close> returns a \<open>long\<close>, which has 32 bits on the target: a byte count read as
  a two's complement 32-bit value.
\<close>

definition long_of_nat :: "nat \<Rightarrow> int" where
  "long_of_nat n = (int n + 2 ^ 31) mod 2 ^ 32 - 2 ^ 31"

section \<open>The socket and the filesystem\<close>

text \<open>
  The calls the server makes on its environment, in order, with what they returned.
\<close>

datatype event =
    EvRecv int
  | EvSend string int
  | EvFopen string bool
  | EvFclose
  | EvShutdown
  | EvClose

text \<open>
  The environment of one connection.  \<open>fs\<close> maps a full path to the bytes of the
  file there.  \<open>inbound\<close> is what the connection delivers to \<open>recv\<close>: \<open>None\<close>
  when \<open>recv\<close> fails, otherwise the bytes waiting (none when the peer has closed).
  \<open>net i\<close> decides the \<open>i\<close>-th call of \<open>send\<close>: negative when the call fails,
  otherwise the number of bytes the transport is ready to take.  \<open>nsend\<close> counts
  the calls of \<open>send\<close> and \<open>trace\<close> records the calls.
\<close>

record world =
  fs :: "string \<Rightarrow> string option"
  inbound :: "string option"
  net :: "nat \<Rightarrow> int"
  nsend :: nat
  trace :: "event list"

definition log_event :: "world \<Rightarrow> event \<Rightarrow> world" where
  "log_event w e = w\<lparr>trace := trace w @ [e]\<rparr>"

text \<open>
  \<open>recv(sock, buf, n, 0)\<close>: the return value, the bytes stored in \<open>buf\<close> and the
  new environment.
\<close>

definition sock_recv :: "world \<Rightarrow> nat \<Rightarrow> int \<times> string \<times> world" where
  "sock_recv w n =
     (case inbound w of
        None \<Rightarrow> (- 1, [], log_event w (EvRecv (- 1)))
      | Some bytes \<Rightarrow>
          (let data = take n bytes; r = int (length data)
           in (r, data, log_event (w\<lparr>inbound := Some (drop n bytes)\<rparr>) (EvRecv r))))"

text \<open>
  \<open>send(sock, buf, len, 0)\<close> where \<open>buf\<close> is the \<open>len\<close> bytes offered: \<open>-1\<close> on
  failure, otherwise the number of bytes accepted, never more than \<open>len\<close>.
\<close>

definition sock_send :: "world \<Rightarrow> string \<Rightarrow> int \<times> world" where
  "sock_send w buf =
     (let k = net w (nsend w);
          s = (if k < 0 then - 1 else min k (int (length buf)))
      in (s, w\<lparr>nsend := nsend w + 1, trace := trace w @ [EvSend buf s]\<rparr>))"

text \<open>
  The bytes \<open>send(sock, header, n, 0)\<close> is given after
  \<open>n = snprintf(header, sizeof(header), ...)\<close> has formatted \<open>s\<close>.  \<open>snprintf\<close>
  returns the length of \<open>s\<close> also when it did not fit, and the \<open>send\<close> would then
  read past the array: no defined result.
\<close>

definition header_bytes :: "string \<Rightarrow> string option" where
  "header_bytes s = (if length s < HEADER_SIZE then Some s else None)"

section \<open>send\_404\<close>

definition body_404 :: string where
  "body_404 = ''<html><body><h1>404 Not Found</h1></body></html>''"

definition header_404 :: "int \<Rightarrow> string" where
  "header_404 body_len =
     ''HTTP/1.1 404 Not Found'' @ CRLF @
     ''Content-Type: text/html; charset=utf-8'' @ CRLF @
     ''Content-Length: '' @ fmt_d body_len @ CRLF @
     ''Connection: close'' @ CRLF @
     CRLF"

text \<open>Neither return value of \<open>send\<close> is looked at.\<close>

definition send_404 :: "world \<Rightarrow> world option" where
  "send_404 w =
     (let body = body_404;
          body_len = int (length body)
      in case header_bytes (header_404 body_len) of
           None \<Rightarrow> None
         | Some header \<Rightarrow>
             (let (s1, w1) = sock_send w header;
                  (s2, w2) = sock_send w1 (take (nat body_len) body)
              in Some w2))"

section \<open>send\_file\<close>

definition header_200 :: "string \<Rightarrow> int \<Rightarrow> string" where
  "header_200 mime filesize =
     ''HTTP/1.1 200 OK'' @ CRLF @
     ''Content-Type: '' @ mime @ CRLF @
     ''Content-Length: '' @ fmt_d filesize @ CRLF @
     ''Connection: close'' @ CRLF @
     CRLF"

text \<open>
  The inner loop of \<open>send_file\<close>, for the chunk \<open>buf\<close> of \<open>r = length buf\<close> bytes
  with \<open>sent\<close> bytes sent already.  The result is \<open>False\<close> with the environment when
  a \<open>send\<close> failed (the source then closes the file and returns), \<open>True\<close> when the
  loop ended.  A transport that keeps accepting 0 bytes keeps the loop running
  forever: no result.
\<close>

partial_function (option) send_chunk :: "world \<Rightarrow> string \<Rightarrow> nat \<Rightarrow> (bool \<times> world) option" where
  "send_chunk w buf sent =
     (if sent < length buf then
        (case sock_send w (drop sent buf) of
           (s, w') \<Rightarrow> if s < 0 then Some (False, w') else send_chunk w' buf (sent + nat s))
      else Some (True, w))"

declare send_chunk.simps [code]

text \<open>
  The outer loop with the \<open>fclose\<close> calls: \<open>rest\<close> is the part of the file that has
  not been read yet, and \<open>fread\<close> takes the next \<open>FILE_CHUNK\<close> bytes of it.
\<close>

function stream_body :: "world \<Rightarrow> string \<Rightarrow> world option" where
  "stream_body w rest =
     (let buf = take FILE_CHUNK rest; r = length buf
      in if r > 0 then
           (case send_chunk w buf 0 of
              None \<Rightarrow> None
            | Some (ok, w') \<Rightarrow>
                if ok then stream_body w' (drop r rest) else Some (log_event w' EvFclose))
         else Some (log_event w EvFclose))"
  by pat_completeness auto
termination
proof (relation "measure (\<lambda>(w, rest). length rest)")
  show "wf (measure (\<lambda>(w, rest). length rest))" by simp
qed (auto simp: FILE_CHUNK_def)

declare stream_body.simps [simp del]

text \<open>\<open>fopen(fullpath, "rb")\<close> succeeds when \<open>fs\<close> has a file at \<open>fullpath\<close>.\<close>

function send_file :: "world \<Rightarrow> string \<Rightarrow> bool \<Rightarrow> world option" where
  "send_file w fullpath isFallback =
     (case fs w fullpath of
        None \<Rightarrow>
          (let w0 = log_event w (EvFopen fullpath False)
           in if \<not> isFallback then send_file w0 FALLBACK_PATH True
              else send_404 w0)
      | Some content \<Rightarrow>
          (let w0 = log_event w (EvFopen fullpath True);
               filesize = long_of_nat (length content);
               mime = get_mime_type fullpath
           in case header_bytes (header_200 mime filesize) of
                None \<Rightarrow> None
              | Some header \<Rightarrow>
                  (case sock_send w0 header of
                     (s, w1) \<Rightarrow> stream_body w1 content)))"
  by pat_completeness auto
termination
proof (relation "measure (\<lambda>(w, fullpath, isFallback). if isFallback then 0 else 1)")
  show "wf (measure (\<lambda>(w, fullpath, isFallback). if isFallback then 0 else (1::nat)))" by simp
qed auto

declare send_file.simps [simp del]

section \<open>handle\_client\<close>

text \<open>
  \<open>recv_buf\<close> is zeroed and \<open>recv_buf[r] = 0\<close> is stored after the \<open>r\<close> bytes
  received, so the request is read as the C string at the start of those bytes.
  \<open>None\<close>: the call has no final state.
\<close>

definition handle_client :: "world \<Rightarrow> world option" where
  "handle_client w =
     (case sock_recv w RECV_BUF_LEN of
        (r, recv_buf, w1) \<Rightarrow>
          if r \<le> 0 then Some (log_event w1 EvClose)
          else
            (case parse_request_path (cstr recv_buf) PATH_BUF_SIZE of
               None \<Rightarrow> None
             | Some req_path \<Rightarrow>
                 (case sanitize_path (Some req_path) PATH_BUF_SIZE of
                    None \<Rightarrow> None
                  | Some safe_path \<Rightarrow>
                      (case send_file w1 safe_path False of
                         None \<Rightarrow> None
                       | Some w2 \<Rightarrow> Some (log_event (log_event w2 EvShutdown) EvClose)))))"

section \<open>Reading a trace\<close>

text \<open>The calls made between the environment \<open>w\<close> and the later environment \<open>w'\<close>.\<close>

definition new_events :: "world \<Rightarrow> world \<Rightarrow> event list" where
  "new_events w w' = drop (length (trace w)) (trace w')"

text \<open>The bytes a call put on the connection: for a \<open>send\<close> that returned \<open>s\<close>, the first \<open>s\<close> bytes offered.\<close>

fun accepted_bytes :: "event \<Rightarrow> string" where
  "accepted_bytes (EvSend buf s) = take (nat s) buf"
| "accepted_bytes _ = []"

text \<open>The byte stream the peer receives from a list of calls.\<close>

definition accepted :: "event list \<Rightarrow> string" where
  "accepted evs = concat (map accepted_bytes evs)"

fun send_ok :: "event \<Rightarrow> bool" where
  "send_ok (EvSend buf s) = (0 \<le> s)"
| "send_ok _ = False"

fun is_recv :: "event \<Rightarrow> bool" where
  "is_recv (EvRecv r) = True"
| "is_recv _ = False"

text \<open>The calls \<open>send_file\<close> makes: \<open>fopen\<close>, \<open>send\<close> and \<open>fclose\<close>.\<close>

fun file_event :: "event \<Rightarrow> bool" where
  "file_event (EvSend buf s) = True"
| "file_event (EvFopen path ok) = True"
| "file_event EvFclose = True"
| "file_event _ = False"

text \<open>The bytes offered by the first \<open>send\<close> of a list of calls: the header of a response.\<close>

fun first_send :: "event list \<Rightarrow> string option" where
  "first_send [] = None"
| "first_send (EvSend buf s # es) = Some buf"
| "first_send (e # es) = first_send es"

text \<open>A response is a 404 when its header starts with the 404 status.\<close>

definition emits_404 :: "event list \<Rightarrow> bool" where
  "emits_404 evs =
     (case first_send evs of None \<Rightarrow> False | Some header \<Rightarrow> take 12 header = ''HTTP/1.1 404'')"

section \<open>Postconditions of the loops\<close>

text \<open>What a finished run of the chunk loop has done.\<close>

definition chunk_post :: "world \<Rightarrow> string \<Rightarrow> nat \<Rightarrow> bool \<times> world \<Rightarrow> bool" where
  "chunk_post w buf sent r =
     (case r of (ok, w') \<Rightarrow>
        fs w' = fs w \<and> inbound w' = inbound w \<and> net w' = net w \<and>
        (ok \<or> (\<exists>i. net w i < 0)) \<and>
        (\<exists>evs. trace w' = trace w @ evs \<and>
           (if ok then list_all send_ok evs \<and> accepted evs = drop sent buf
            else \<exists>evs0 b s. evs = evs0 @ [EvSend b s] \<and> s < 0 \<and> list_all send_ok evs0)))"

text \<open>
  What a finished run of the read loop has done: every chunk sent, or the calls end with
  the failed \<open>send\<close>; then the file is closed.
\<close>

definition body_post :: "world \<Rightarrow> string \<Rightarrow> world \<Rightarrow> bool" where
  "body_post w rest w' =
     (fs w' = fs w \<and> inbound w' = inbound w \<and> net w' = net w \<and>
      (\<exists>evs. trace w' = trace w @ evs @ [EvFclose] \<and>
         ((list_all send_ok evs \<and> accepted evs = rest) \<or>
          ((\<exists>i. net w i < 0) \<and>
           (\<exists>evs0 b s. evs = evs0 @ [EvSend b s] \<and> s < 0 \<and> list_all send_ok evs0)))))"

section \<open>Expected responses\<close>

text \<open>
  The bytes \<open>send_file\<close> hands to a transport that takes them all: the 200 header and
  the file, of the path itself or of the fallback, or the 404 header and body.
\<close>

definition response_of_file :: "(string \<Rightarrow> string option) \<Rightarrow> string \<Rightarrow> bool \<Rightarrow> string" where
  "response_of_file files p fb =
     (case files p of
        Some c \<Rightarrow> header_200 (get_mime_type p) (long_of_nat (length c)) @ c
      | None \<Rightarrow>
          if \<not> fb then
            (case files FALLBACK_PATH of
               Some c \<Rightarrow> header_200 (get_mime_type FALLBACK_PATH) (long_of_nat (length c)) @ c
             | None \<Rightarrow> header_404 (int (length body_404)) @ body_404)
          else header_404 (int (length body_404)) @ body_404)"

text \<open>The same for \<open>handle_client\<close>, from the files and the bytes the connection delivers.\<close>

definition response_of_request :: "(string \<Rightarrow> string option) \<Rightarrow> string option \<Rightarrow> string" where
  "response_of_request files inb =
     (case inb of
        None \<Rightarrow> []
      | Some bytes \<Rightarrow>
          if take RECV_BUF_LEN bytes = [] then []
          else
            (case parse_request_path (cstr (take RECV_BUF_LEN bytes)) PATH_BUF_SIZE of
               None \<Rightarrow> []
             | Some req_path \<Rightarrow>
                 (case sanitize_path (Some req_path) PATH_BUF_SIZE of
                    None \<Rightarrow> []
                  | Some safe_path \<Rightarrow> response_of_file files safe_path False)))"

section \<open>Postconditions of the calls\<close>

text \<open>What a finished call of \<open>send_file\<close> has done.\<close>

definition file_post :: "world \<Rightarrow> string \<Rightarrow> bool \<Rightarrow> world \<Rightarrow> bool" where
  "file_post w p fb w' =
     (fs w' = fs w \<and> inbound w' = inbound w \<and> net w' = net w \<and>
      (\<exists>evs. trace w' = trace w @ evs \<and> list_all file_event evs \<and>
         (emits_404 evs \<longleftrightarrow> fs w p = None \<and> (fb \<or> fs w FALLBACK_PATH = None))))"

text \<open>What a finished call of \<open>handle_client\<close> has done.\<close>

definition client_post :: "world \<Rightarrow> world \<Rightarrow> bool" where
  "client_post w w' =
     (\<exists>r evs. trace w' = trace w @ [EvRecv r] @ evs @ [EvClose] \<and> fs w' = fs w \<and>
        ((r \<le> 0 \<and> evs = []) \<or>
         (0 < r \<and> (\<exists>evs'. evs = evs' @ [EvShutdown] \<and> list_all file_event evs'))))"

section \<open>Examples\<close>

text \<open>A request for \<open>/app.js\<close>.\<close>

definition example_request :: string where
  "example_request = ''GET /app.js HTTP/1.1'' @ CRLF @ ''Host: esp32'' @ CRLF @ CRLF"


text \<open>Small environments to run the server on.\<close>

definition example_files :: "string \<Rightarrow> string option" where
  "example_files p =
     (if p = ''/spiffs/index.html'' then Some ''<h1>hi</h1>''
      else if p = ''/spiffs/app.js'' then Some ''let x = 1;''
      else None)"

definition no_files :: "string \<Rightarrow> string option" where
  "no_files p = None"

definition example_world :: "(string \<Rightarrow> string option) \<Rightarrow> string option \<Rightarrow> (nat \<Rightarrow> int) \<Rightarrow> world" where
  "example_world files inb n = \<lparr>fs = files, inbound = inb, net = n, nsend = 0, trace = []\<rparr>"

text \<open>Two transports on which no \<open>send\<close> fails: 5 bytes, and 256 bytes, accepted per call.\<close>

definition transport_5 :: "nat \<Rightarrow> int" where
  "transport_5 i = 5"

definition transport_256 :: "nat \<Rightarrow> int" where
  "transport_256 i = 256"

text \<open>The bytes one run of the handler puts on the connection.\<close>

definition response_bytes :: "world \<Rightarrow> string option" where
  "response_bytes w = map_option (\<lambda>w'. accepted (new_events w w')) (handle_client w)"

text \<open>A request path of 255 bytes that is one segment with dots in it.\<close>

definition long_dotted_segment :: string where
  "long_dotted_segment = ''..'' @ replicate 253 (CHR ''x'')"

section \<open>Reading a response header\<close>

text \<open>The lines of a header: the pieces between its line feeds.\<close>

fun split_lines :: "string \<Rightarrow> string list" where
  "split_lines [] = [[]]"
| "split_lines (c # cs) =
     (if c = CHR 0x0A then [] # split_lines cs
      else (let ls = split_lines cs in (c # hd ls) # tl ls))"



section \<open>The sanitizer as the specification words it\<close>

text \<open>The segments of a path: the pieces between its \<open>/\<close> characters.\<close>

fun spec_segments :: "string \<Rightarrow> string list" where
  "spec_segments [] = [[]]"
| "spec_segments (c # cs) =
     (if c = CHR ''/'' then [] # spec_segments cs
      else (let ss = spec_segments cs in (c # hd ss) # tl ss))"

text \<open>Exactly one leading \<open>/\<close> is stripped, if present.\<close>

definition spec_strip_slash :: "string \<Rightarrow> string" where
  "spec_strip_slash rp = (case rp of [] \<Rightarrow> [] | c # cs \<Rightarrow> if c = CHR ''/'' then cs else rp)"

text \<open>An empty segment and the segment \<open>..\<close> are skipped; every other segment is kept.\<close>

definition spec_kept :: "string \<Rightarrow> bool" where
  "spec_kept s = (s \<noteq> [] \<and> s \<noteq> ''..'')"

text \<open>A kept segment is appended, with a separator unless the accumulator is empty.\<close>

definition spec_append :: "string \<Rightarrow> string \<Rightarrow> string" where
  "spec_append acc s = (if acc \<noteq> [] then acc @ ''/'' else acc) @ s"

definition spec_accumulate :: "string \<Rightarrow> string" where
  "spec_accumulate p = foldl spec_append [] (filter spec_kept (spec_segments p))"

section \<open>The content type resolver as the specification words it\<close>

text \<open>The fixed table, keyed by the lower-case extension.\<close>

definition spec_mime_table :: "(string \<times> string) list" where
  "spec_mime_table =
     [(''html'', ''text/html; charset=utf-8''),
      (''htm'', ''text/html; charset=utf-8''),
      (''css'', ''text/css''),
      (''js'', ''application/javascript''),
      (''json'', ''application/json''),
      (''png'', ''image/png''),
      (''jpg'', ''image/jpeg''),
      (''jpeg'', ''image/jpeg''),
      (''gif'', ''image/gif''),
      (''svg'', ''image/svg+xml''),
      (''ico'', ''image/x-icon''),
      (''txt'', ''text/plain; charset=utf-8'')]"

text \<open>The substring after the last \<open>.\<close> of the path.\<close>

definition spec_after_last_dot :: "string \<Rightarrow> string" where
  "spec_after_last_dot path = rev (takeWhile (\<lambda>c. c \<noteq> CHR ''.'') (rev path))"

text \<open>
  No dot: the generic binary type.  Otherwise the extension is compared without regard
  to case against the table; no match: the generic binary type.
\<close>

definition spec_resolve :: "string \<Rightarrow> string" where
  "spec_resolve path =
     (if CHR ''.'' \<notin> set path then ''application/octet-stream''
      else (case map_of spec_mime_table (map tolower (spec_after_last_dot path)) of
              None \<Rightarrow> ''application/octet-stream''
            | Some t \<Rightarrow> t))"

section \<open>The request parser as the specification words it\<close>

text \<open>The substring between the first and the second space of \<open>s\<close>.\<close>

definition spec_token :: "string \<Rightarrow> string" where
  "spec_token s = takeWhile (\<lambda>c. c \<noteq> CHR '' '') (drop 1 (dropWhile (\<lambda>c. c \<noteq> CHR '' '') s))"

definition spec_has_two_spaces :: "string \<Rightarrow> bool" where
  "spec_has_two_spaces s = (2 \<le> length (filter (\<lambda>c. c = CHR '' '') s))"

text \<open>The first line of the request: the bytes before the first CR or LF.\<close>

definition spec_first_line :: "string \<Rightarrow> string" where
  "spec_first_line req = takeWhile (\<lambda>c. c \<noteq> CHR 0x0D \<and> c \<noteq> CHR 0x0A) req"

text \<open>
  The parser of the specification: the two spaces are looked for in the first line, the
  token is cut to the \<open>n - 1\<close> bytes that fit, and \<open>/\<close> is the default.
\<close>

definition spec_parse_first_line :: "string \<Rightarrow> nat \<Rightarrow> string" where
  "spec_parse_first_line req n =
     (if spec_has_two_spaces (spec_first_line req)
      then take (n - 1) (spec_token (spec_first_line req)) else ''/'')"

text \<open>The same with the two spaces looked for in the whole request string.\<close>

definition spec_parse_buffer :: "string \<Rightarrow> nat \<Rightarrow> string" where
  "spec_parse_buffer req n =
     (if spec_has_two_spaces req then take (n - 1) (spec_token req) else ''/'')"

section \<open>Properties of the libc model\<close>

lemma spec_segments_nonempty: "spec_segments s \<noteq> []"
  by (induction s) (auto simp: Let_def)

lemma strchr_None: "strchr s c = None \<longleftrightarrow> c \<notin> set s"
  by (induction s) auto

lemma strchr_Some: "strchr s c = Some n \<Longrightarrow> n < length s \<and> s ! n = c \<and> c \<notin> set (take n s)"
proof (induction s arbitrary: n)
  case Nil
  then show ?case by simp
next
  case (Cons x xs)
  then show ?case by (cases n) (auto split: if_splits)
qed

lemma spec_segments_no_slash: "CHR ''/'' \<notin> set s \<Longrightarrow> spec_segments s = [s]"
  by (induction s) (auto simp: Let_def)

lemma spec_segments_append:
  "CHR ''/'' \<notin> set a \<Longrightarrow> spec_segments (a @ CHR ''/'' # b) = a # spec_segments b"
  by (induction a) (auto simp: Let_def)

lemma spec_segments_strchr:
  assumes "strchr s (CHR ''/'') = Some n"
  shows "spec_segments s = take n s # spec_segments (drop (n + 1) s)"
proof -
  from strchr_Some [OF assms] have n: "n < length s" "s ! n = CHR ''/''" "CHR ''/'' \<notin> set (take n s)"
    by auto
  have "s = take n s @ CHR ''/'' # drop (n + 1) s"
    using n(1,2) by (metis Suc_eq_plus1 id_take_nth_drop)
  then have "spec_segments s = spec_segments (take n s @ CHR ''/'' # drop (n + 1) s)" by simp
  also have "\<dots> = take n s # spec_segments (drop (n + 1) s)"
    using n(3) by (rule spec_segments_append)
  finally show ?thesis .
qed

lemma dotdot_take:
  "n \<le> length s \<Longrightarrow> (n = 2 \<and> s ! 0 = CHR ''.'' \<and> s ! 1 = CHR ''.'') \<longleftrightarrow> take n s = ''..''"
proof
  assume n: "n \<le> length s" and "n = 2 \<and> s ! 0 = CHR ''.'' \<and> s ! 1 = CHR ''.''"
  then obtain a b r where "s = a # b # r" 
    by (cases s; cases "tl s") auto
  with \<open>n = 2 \<and> s ! 0 = CHR ''.'' \<and> s ! 1 = CHR ''.''\<close> show "take n s = ''..''" by simp
next
  assume n: "n \<le> length s" and t: "take n s = ''..''"
  from t have "length (take n s) = 2" by simp
  with n have n2: "n = 2" by simp
  with t show "n = 2 \<and> s ! 0 = CHR ''.'' \<and> s ! 1 = CHR ''.''"
    by (cases s; cases "tl s") auto
qed

lemma length_spec_append: "length acc \<le> length (spec_append acc s)"
  by (simp add: spec_append_def)

lemma length_foldl_spec_append: "length acc \<le> length (foldl spec_append acc ss)"
proof (induction ss arbitrary: acc)
  case Nil
  show ?case by simp
next
  case (Cons s ss)
  have "length acc \<le> length (spec_append acc s)" by (rule length_spec_append)
  also have "\<dots> \<le> length (foldl spec_append (spec_append acc s) ss)" by (rule Cons.IH)
  finally show ?case by simp
qed

lemma sanitize_loop_Nil: "sanitize_loop [] tmp = tmp"
  by (subst sanitize_loop.simps) simp

lemma not_kept: "\<not> spec_kept []" "\<not> spec_kept ''..''"
  by (simp_all add: spec_kept_def)

lemma sanitize_loop_foldl:
  "length (foldl spec_append tmp (filter spec_kept (spec_segments seg))) \<le> 254 \<Longrightarrow>
   sanitize_loop seg tmp = foldl spec_append tmp (filter spec_kept (spec_segments seg))"
proof (induction seg tmp rule: sanitize_loop.induct)
  case (1 seg tmp)
  let ?F = "\<lambda>t s. foldl spec_append t (filter spec_kept (spec_segments s))"
  have tmp_len: "length tmp \<le> 254"
    using "1.prems" length_foldl_spec_append [of tmp] by (meson le_trans)
  show ?case
  proof (cases "seg = []")
    case True
    then show ?thesis by (simp add: not_kept sanitize_loop_Nil)
  next
    case False
    show ?thesis
    proof (cases "strchr seg (CHR ''/'')")
      case None
      then have sp: "spec_segments seg = [seg]" by (simp add: strchr_None spec_segments_no_slash)
      show ?thesis
      proof (cases "seg = ''..''")
        case True
        then show ?thesis using tmp_len None
          by (subst sanitize_loop.simps) (simp add: TMP_SIZE_def not_kept sanitize_loop_Nil)
      next
        case dd: False
        then have k: "spec_kept seg" using False by (simp add: spec_kept_def)
        have nd: "\<not> (length seg = 2 \<and> seg ! 0 = CHR ''.'' \<and> seg ! 1 = CHR ''.'')"
          using dotdot_take [of "length seg" seg] dd by simp
        have fits: "length (spec_append tmp seg) \<le> 254" using "1.prems" sp k by simp
        then have "length tmp + length seg + 1 < TMP_SIZE"
          by (auto simp: spec_append_def TMP_SIZE_def split: if_splits)
        then show ?thesis using None False nd sp k tmp_len
          by (subst sanitize_loop.simps)
            (simp add: TMP_SIZE_def Let_def spec_append_def sanitize_loop_Nil)
      qed
    next
      case (Some n)
      note sp = spec_segments_strchr [OF Some]
      from strchr_Some [OF Some] have n: "n < length seg" by simp
      let ?seg' = "drop (n + 1) seg"
      show ?thesis
      proof (cases "n = 0")
        case True
        have "?F tmp seg = ?F tmp ?seg'" using sp True by (simp add: not_kept)
        moreover have "sanitize_loop ?seg' tmp = ?F tmp ?seg'"
          using "1.IH"(1) [OF refl _ refl refl refl] False tmp_len Some True "1.prems" sp
          by (simp add: TMP_SIZE_def not_kept)
        ultimately show ?thesis using False tmp_len Some True
          by (subst sanitize_loop.simps) (simp add: TMP_SIZE_def Let_def)
      next
        case n0: False
        show ?thesis
        proof (cases "take n seg = ''..''")
          case True
          then have dd: "n = 2 \<and> seg ! 0 = CHR ''.'' \<and> seg ! 1 = CHR ''.''"
            using dotdot_take [of n seg] n by simp
          have "?F tmp seg = ?F tmp ?seg'" using sp True by (simp add: not_kept)
          moreover have "sanitize_loop ?seg' tmp = ?F tmp ?seg'"
            using "1.IH"(2) [OF refl _ refl refl refl] False tmp_len Some n0 dd "1.prems" sp True
            by (simp add: TMP_SIZE_def not_kept)
          ultimately show ?thesis using False tmp_len Some n0 dd
            by (subst sanitize_loop.simps) (simp add: TMP_SIZE_def Let_def)
        next
          case ndd: False
          then have nd: "\<not> (n = 2 \<and> seg ! 0 = CHR ''.'' \<and> seg ! 1 = CHR ''.'')"
            using dotdot_take [of n seg] n by simp
          have k: "spec_kept (take n seg)" using n0 n ndd by (auto simp: spec_kept_def)
          have eq: "?F tmp seg = ?F (spec_append tmp (take n seg)) ?seg'"
            using sp k by simp
          have "length (spec_append tmp (take n seg)) \<le> 254"
            using "1.prems" eq length_foldl_spec_append [of "spec_append tmp (take n seg)"]
            by (metis le_trans)
          then have fits: "length tmp + n + 1 < TMP_SIZE" using n
            by (auto simp: spec_append_def TMP_SIZE_def split: if_splits)
          have app: "\<And>s. (if tmp \<noteq> [] then tmp @ ''/'' else tmp) @ s = spec_append tmp s"
            by (simp add: spec_append_def)
          have "sanitize_loop ?seg' (spec_append tmp (take n seg)) =
                ?F (spec_append tmp (take n seg)) ?seg'"
            using "1.IH"(3) [OF refl _ refl refl refl] False tmp_len Some n0 nd fits "1.prems" eq
            by (simp add: TMP_SIZE_def app)
          then show ?thesis using False tmp_len Some n0 nd fits eq
            by (subst sanitize_loop.simps) (auto simp: TMP_SIZE_def Let_def app)
        qed
      qed
    qed
  qed
qed


lemma strip_slash_eq:
  "(if rp \<noteq> [] \<and> rp ! 0 = CHR ''/'' then drop 1 rp else rp) = spec_strip_slash rp"
  by (cases rp) (simp_all add: spec_strip_slash_def)

section \<open>The sanitizer\<close>

text \<open>
  C10, amended: whenever the kept segments, joined by \<open>/\<close>, have at most 247 bytes
  (what the path buffer holds after the root and the separator), only a segment that
  is exactly \<open>..\<close> is dropped (and an empty one skipped): the sanitized path is the
  root followed by every other segment of the request path, in order and unchanged, a
  segment \<open>.\<close> and segments such as \<open>...\<close>, \<open>a..b\<close> and \<open>..x\<close> included.
\<close>

theorem sanitize_path_keeps_other_segments:
  assumes "length (spec_accumulate (spec_strip_slash rp)) \<le> 247"
  shows "sanitize_path (Some rp) PATH_BUF_SIZE =
         Some (SPIFFS_BASE_PATH @ ''/'' @
               (if spec_accumulate (spec_strip_slash rp) \<noteq> []
                then spec_accumulate (spec_strip_slash rp) else ''index.html''))"
proof (cases "rp = ''/''")
  case True
  then show ?thesis
    by (simp add: sanitize_path_def snprintf_def PATH_BUF_SIZE_def SPIFFS_BASE_PATH_def
        spec_strip_slash_def spec_accumulate_def not_kept)
next
  case False
  let ?p = "spec_strip_slash rp"
  have "length (foldl spec_append [] (filter spec_kept (spec_segments ?p))) \<le> 254"
    using assms by (simp add: spec_accumulate_def)
  then have loop: "sanitize_loop ?p [] = spec_accumulate ?p"
    unfolding spec_accumulate_def by (rule sanitize_loop_foldl)
  show ?thesis
    using False assms
    by (simp add: sanitize_path_def strip_slash_eq loop snprintf_def PATH_BUF_SIZE_def
        SPIFFS_BASE_PATH_def Let_def)
qed

theorem sanitize_path_keeps_other_segments_witness:
  "sanitize_path (Some ''/./a'') PATH_BUF_SIZE = Some ''/spiffs/./a'' \<and>
   sanitize_path (Some ''/.../x'') PATH_BUF_SIZE = Some ''/spiffs/.../x'' \<and>
   sanitize_path (Some ''/a..b/../..x//y'') PATH_BUF_SIZE = Some ''/spiffs/a..b/..x/y''"
proof -
  have a: "spec_accumulate (spec_strip_slash ''/./a'') = ''./a''"
    by (simp add: spec_accumulate_def spec_strip_slash_def spec_kept_def spec_append_def)
  have b: "spec_accumulate (spec_strip_slash ''/.../x'') = ''.../x''"
    by (simp add: spec_accumulate_def spec_strip_slash_def spec_kept_def spec_append_def)
  have c: "spec_accumulate (spec_strip_slash ''/a..b/../..x//y'') = ''a..b/..x/y''"
    by (simp add: spec_accumulate_def spec_strip_slash_def spec_kept_def spec_append_def)
  show ?thesis
    using sanitize_path_keeps_other_segments [of "''/./a''"]
      sanitize_path_keeps_other_segments [of "''/.../x''"]
      sanitize_path_keeps_other_segments [of "''/a..b/../..x//y''"]
    by (simp add: a b c SPIFFS_BASE_PATH_def)
qed

text \<open>
  C10, as stated: every segment other than \<open>..\<close> would be appended literally.  The
  request path of 255 bytes that is the one segment \<open>..xxx...x\<close> is not \<open>..\<close>, and
  fits the path buffer of the parser; it does not fit \<open>tmp\<close>, the loop stops at its
  capacity check without appending it, and the result is the index document.
\<close>

theorem sanitize_path_long_segment_dropped:
  "parse_request_path (''GET '' @ long_dotted_segment @ '' HTTP/1.1'' @ CRLF @ CRLF) PATH_BUF_SIZE =
     Some long_dotted_segment \<and>
   long_dotted_segment \<noteq> ''..'' \<and>
   CHR ''/'' \<notin> set long_dotted_segment \<and>
   sanitize_path (Some long_dotted_segment) PATH_BUF_SIZE = Some ''/spiffs/index.html'' \<and>
   long_dotted_segment \<notin> set (spec_segments ''/spiffs/index.html'')"
  by code_simp

text \<open>
  C2, as stated: \<open>/../../../x\<close> and \<open>/../../etc/passwd\<close> would sanitize to the index
  document.  They do not.
\<close>

theorem sanitize_path_dotdot_prefix_not_index:
  "sanitize_path (Some ''/../../../x'') PATH_BUF_SIZE \<noteq> Some ''/spiffs/index.html'' \<and>
   sanitize_path (Some ''/../../etc/passwd'') PATH_BUF_SIZE \<noteq> Some ''/spiffs/index.html''"
  by code_simp

text \<open>
  C2, amended: \<open>/../../../x\<close> sanitizes to \<open>/spiffs/x\<close> and \<open>/../../etc/passwd\<close>
  to \<open>/spiffs/etc/passwd\<close>: the \<open>..\<close> segments are dropped and the segments after
  them are kept.  The path \<open>/../../..\<close>, which has no other segment, sanitizes to the
  index document.
\<close>

theorem sanitize_path_dotdot_prefix:
  "sanitize_path (Some ''/../../../x'') PATH_BUF_SIZE = Some ''/spiffs/x'' \<and>
   sanitize_path (Some ''/../../etc/passwd'') PATH_BUF_SIZE = Some ''/spiffs/etc/passwd'' \<and>
   sanitize_path (Some ''/../../..'') PATH_BUF_SIZE = Some ''/spiffs/index.html''"
  by code_simp

text \<open>
  C7.  The null pointer and the path \<open>/\<close> give the index document without running
  the segment loop, and so does every request path whose accumulated remainder
  \<open>tmp\<close> is empty after the loop, for every buffer that can hold the result.
\<close>

theorem sanitize_path_index_default:
  assumes "18 < buflen"
  shows "sanitize_path None buflen = Some ''/spiffs/index.html'' \<and>
         sanitize_path (Some ''/'') buflen = Some ''/spiffs/index.html'' \<and>
         (sanitize_loop (if rp \<noteq> [] \<and> rp ! 0 = CHR ''/'' then drop 1 rp else rp) [] = [] \<longrightarrow>
          sanitize_path (Some rp) buflen = Some ''/spiffs/index.html'')"
  using assms
  by (simp add: sanitize_path_def snprintf_def SPIFFS_BASE_PATH_def Let_def)

theorem sanitize_path_index_default_witness:
  "sanitize_path None PATH_BUF_SIZE = Some ''/spiffs/index.html'' \<and>
   sanitize_path (Some ''/'') PATH_BUF_SIZE = Some ''/spiffs/index.html'' \<and>
   sanitize_loop ''..//..'' [] = [] \<and>
   sanitize_path (Some ''/..//..'') PATH_BUF_SIZE = Some ''/spiffs/index.html''"
proof -
  have l: "sanitize_loop ''..//..'' [] = []" by code_simp
  have b: "18 < PATH_BUF_SIZE" by (simp add: PATH_BUF_SIZE_def)
  show ?thesis
    using sanitize_path_index_default [OF b, of "''/..//..''"] l by simp
qed

text \<open>
  What the sanitizer does achieve: the accumulator \<open>tmp\<close> never holds a \<open>..\<close>
  segment, every result in the path buffer starts with the root and a separator, and a
  result that \<open>snprintf\<close> did not have to cut has no \<open>..\<close> segment.
\<close>

lemma spec_segments_snoc:
  "CHR ''/'' \<notin> set s \<Longrightarrow> spec_segments (t @ CHR ''/'' # s) = spec_segments t @ [s]"
proof (induction t)
  case Nil
  then show ?case by (simp add: spec_segments_no_slash)
next
  case (Cons c t)
  have ne: "spec_segments t \<noteq> []" by (rule spec_segments_nonempty)
  show ?case
  proof (cases "c = CHR ''/''")
    case True
    with Cons show ?thesis by simp
  next
    case False
    with Cons ne show ?thesis by (simp add: Let_def)
  qed
qed

lemma sanitize_loop_no_dotdot:
  "''..'' \<notin> set (spec_segments tmp) \<Longrightarrow> ''..'' \<notin> set (spec_segments (sanitize_loop seg tmp))"
proof (induction seg tmp rule: sanitize_loop.induct)
  case (1 seg tmp)
  let ?next = "strchr seg (CHR ''/'')"
  let ?len = "case ?next of Some n \<Rightarrow> n | None \<Rightarrow> length seg"
  let ?seg' = "case ?next of Some n \<Rightarrow> drop (n + 1) seg | None \<Rightarrow> drop ?len seg"
  let ?tmp' = "(if length tmp \<noteq> 0 then tmp @ ''/'' else tmp) @ take ?len seg"
  show ?case
  proof (cases "seg \<noteq> [] \<and> length tmp + 1 < TMP_SIZE")
    case False
    then show ?thesis using "1.prems" by (subst sanitize_loop.simps) auto
  next
    case c: True
    have len: "?len \<le> length seg" using strchr_Some [of seg "CHR ''/''"]
      by (auto split: option.splits)
    have nosl: "CHR ''/'' \<notin> set (take ?len seg)"
      using strchr_Some [of seg "CHR ''/''"] strchr_None [of seg "CHR ''/''"]
      by (auto split: option.splits)
    show ?thesis
    proof (cases "?len = 0")
      case True
      from "1.IH"(1) [OF refl c refl refl refl True "1.prems"] True c show ?thesis
        by (subst sanitize_loop.simps) (simp add: Let_def)
    next
      case l0: False
      show ?thesis
      proof (cases "?len = 2 \<and> seg ! 0 = CHR ''.'' \<and> seg ! 1 = CHR ''.''")
        case True
        from "1.IH"(2) [OF refl c refl refl refl l0 True "1.prems"] True c l0 show ?thesis
          by (subst sanitize_loop.simps) (simp add: Let_def)
      next
        case nd: False
        show ?thesis
        proof (cases "length tmp + ?len + 1 \<ge> TMP_SIZE")
          case True
          with c l0 nd "1.prems" show ?thesis
            by (subst sanitize_loop.simps) (auto simp: Let_def)
        next
          case fits: False
          have ndd: "take ?len seg \<noteq> ''..''" using nd dotdot_take [OF len] by blast
          have "''..'' \<notin> set (spec_segments ?tmp')"
          proof (cases "tmp = []")
            case True
            then show ?thesis using ndd nosl by (simp add: spec_segments_no_slash)
          next
            case False
            then have "spec_segments ?tmp' = spec_segments tmp @ [take ?len seg]"
              using spec_segments_snoc [OF nosl, of tmp] by simp
            then show ?thesis using ndd "1.prems" by simp
          qed
          from "1.IH"(3) [OF refl c refl refl refl l0 nd fits this] c l0 nd fits show ?thesis
            by (subst sanitize_loop.simps) (auto simp: Let_def)
        qed
      qed
    qed
  qed
qed

lemma sanitize_path_rooted:
  "\<exists>t. sanitize_path rp PATH_BUF_SIZE = Some (''/spiffs/'' @ t)"
  by (simp add: sanitize_path_def snprintf_def PATH_BUF_SIZE_def SPIFFS_BASE_PATH_def Let_def
      split: option.splits)

lemma sanitize_path_eq:
  "sanitize_path (Some rp) n =
     snprintf n (SPIFFS_BASE_PATH @ ''/'' @
       (if rp = ''/'' \<or> sanitize_loop (spec_strip_slash rp) [] = [] then ''index.html''
        else sanitize_loop (spec_strip_slash rp) []))"
  unfolding sanitize_path_def Let_def strip_slash_eq by simp

lemma sanitize_path_safe_unless_cut:
  assumes "length (sanitize_loop (spec_strip_slash rp) []) \<le> 247"
    and "sanitize_path (Some rp) PATH_BUF_SIZE = Some out"
  shows "''..'' \<notin> set (spec_segments out)"
proof -
  let ?tmp = "sanitize_loop (spec_strip_slash rp) []"
  have nd: "''..'' \<notin> set (spec_segments ?tmp)"
    by (rule sanitize_loop_no_dotdot) simp
  have idx: "spec_segments ''/spiffs/index.html'' = [[], ''spiffs'', ''index.html'']"
    by code_simp
  have pre: "spec_segments (''/spiffs'' @ CHR ''/'' # t) = [[], ''spiffs''] @ spec_segments t" for t
    by (simp add: Let_def)
  show ?thesis
  proof (cases "rp = ''/'' \<or> ?tmp = []")
    case True
    then have "out = ''/spiffs/index.html''" using assms(2)
      unfolding sanitize_path_eq
      by (simp add: snprintf_def PATH_BUF_SIZE_def SPIFFS_BASE_PATH_def)
    then show ?thesis by (simp only: idx) simp
  next
    case False
    then have "out = ''/spiffs'' @ CHR ''/'' # ?tmp" using assms
      unfolding sanitize_path_eq
      by (simp add: snprintf_def PATH_BUF_SIZE_def SPIFFS_BASE_PATH_def)
    then show ?thesis using nd by (simp only: pre) simp
  qed
qed

text \<open>
  C1 at the request \<open>GET /aaa...a/..x HTTP/1.1\<close> with 244 letters \<open>a\<close>: the request
  path has 249 bytes and fits the path buffer; its segments \<open>aaa...a\<close> and \<open>..x\<close>
  are both kept, and the 256 bytes of the root, the separator and the two segments are
  cut to the 255 that fit \<open>buf\<close>, which cuts \<open>..x\<close> to \<open>..\<close>.  The sanitized path
  ends with a \<open>..\<close> segment.
\<close>

theorem sanitize_path_truncated_to_dotdot:
  "parse_request_path (''GET /'' @ replicate 244 (CHR ''a'') @ ''/..x HTTP/1.1'' @ CRLF @ CRLF)
     PATH_BUF_SIZE = Some (''/'' @ replicate 244 (CHR ''a'') @ ''/..x'') \<and>
   sanitize_path (Some (''/'' @ replicate 244 (CHR ''a'') @ ''/..x'')) PATH_BUF_SIZE =
     Some (''/spiffs/'' @ replicate 244 (CHR ''a'') @ ''/..'') \<and>
   ''..'' \<in> set (spec_segments (''/spiffs/'' @ replicate 244 (CHR ''a'') @ ''/..''))"
  by code_simp

section \<open>The content type resolver\<close>

lemma strrchr_None: "strrchr s c = None \<longleftrightarrow> c \<notin> set s"
  by (induction s) (auto split: option.splits)

lemma strrchr_Some:
  "strrchr s c = Some i \<Longrightarrow> drop (i + 1) s = rev (takeWhile (\<lambda>x. x \<noteq> c) (rev s))"
proof (induction s arbitrary: i)
  case Nil
  then show ?case by simp
next
  case (Cons x xs)
  show ?case
  proof (cases "strrchr xs c")
    case None
    then have "c \<notin> set xs" by (simp add: strrchr_None)
    then have "takeWhile (\<lambda>x. x \<noteq> c) (rev xs) = rev xs" by (auto simp: takeWhile_eq_all_conv)
    then have tw: "takeWhile (\<lambda>x. x \<noteq> c) (rev xs @ [x]) = rev xs" if "x = c"
      using that by (simp add: takeWhile_tail)
    from Cons.prems None have "x = c" "i = 0" by (auto split: if_splits)
    then show ?thesis using tw by simp
  next
    case (Some j)
    then have "c \<in> set xs" using strrchr_None [of xs c] by auto
    then have "takeWhile (\<lambda>x. x \<noteq> c) (rev xs @ [x]) = takeWhile (\<lambda>x. x \<noteq> c) (rev xs)"
      by (simp add: takeWhile_append1)
    with Cons Some show ?thesis by auto
  qed
qed

lemma of_char_NUL: "(of_char c :: nat) = 0 \<longleftrightarrow> c = NUL"
proof -
  have "(of_char NUL :: nat) = 0" by (simp add: NUL_def)
  then have "(of_char c :: nat) = 0 \<longleftrightarrow> (of_char c :: nat) = of_char NUL" by simp
  then show ?thesis by (simp only: of_char_eq_iff)
qed

lemma of_char_tolower_0: "(of_char (tolower c) :: nat) = 0 \<longleftrightarrow> c = NUL"
  using of_char_NUL [of c] by (auto simp: tolower_def Let_def)

lemma tolower_eq: "int (of_char (tolower a)) - int (of_char (tolower b)) = 0 \<longleftrightarrow> tolower a = tolower b"
  by simp

lemma strcasecmp_0:
  "NUL \<notin> set a \<Longrightarrow> NUL \<notin> set b \<Longrightarrow> strcasecmp a b = 0 \<longleftrightarrow> map tolower a = map tolower b"
proof (induction a b rule: strcasecmp.induct)
  case 1
  show ?case by simp
next
  case (2 b bs)
  then show ?case using of_char_tolower_0 [of b] by auto
next
  case (3 a as)
  then show ?case using of_char_tolower_0 [of a] by auto
next
  case (4 a as b bs)
  then show ?case by (auto simp: Let_def)
qed


lemma tolower_table:
  "map tolower ''html'' = ''html''" "map tolower ''htm'' = ''htm''" "map tolower ''css'' = ''css''"
  "map tolower ''js'' = ''js''" "map tolower ''json'' = ''json''" "map tolower ''png'' = ''png''"
  "map tolower ''jpg'' = ''jpg''" "map tolower ''jpeg'' = ''jpeg''" "map tolower ''gif'' = ''gif''"
  "map tolower ''svg'' = ''svg''" "map tolower ''ico'' = ''ico''" "map tolower ''txt'' = ''txt''"
  by (simp_all add: tolower_def)

lemma strcasecmp_table:
  assumes "map tolower k = k" "NUL \<notin> set k" "NUL \<notin> set ext"
  shows "strcasecmp ext k = 0 \<longleftrightarrow> map tolower ext = k"
  using strcasecmp_0 [of ext k] assms by simp

text \<open>
  C6.  For every path (a C string: no NUL byte), \<open>get_mime_type\<close> returns what the
  table lookup of the specification returns: the generic binary type when the path has
  no dot, otherwise the type the table gives for the lower-cased substring after the
  last dot, and the generic binary type when the table has no such entry.  The result
  depends on the path only.
\<close>

theorem get_mime_type_table:
  assumes "NUL \<notin> set path"
  shows "get_mime_type path = spec_resolve path"
proof (cases "strrchr path (CHR ''.'')")
  case None
  then have "CHR ''.'' \<notin> set path" by (simp add: strrchr_None)
  with None show ?thesis by (simp add: get_mime_type_def spec_resolve_def)
next
  case (Some dot)
  let ?ext = "drop (dot + 1) path"
  have ext: "?ext = spec_after_last_dot path"
    unfolding spec_after_last_dot_def by (rule strrchr_Some [OF Some])
  have dotin: "CHR ''.'' \<in> set path" using Some strrchr_None [of path "CHR ''.''"] by auto
  have nul: "NUL \<notin> set ?ext" using assms by (meson in_set_dropD)
  note cmp = strcasecmp_table [OF _ _ nul]
  have c: "strcasecmp ?ext ''html'' = 0 \<longleftrightarrow> map tolower ?ext = ''html''"
    "strcasecmp ?ext ''htm'' = 0 \<longleftrightarrow> map tolower ?ext = ''htm''"
    "strcasecmp ?ext ''css'' = 0 \<longleftrightarrow> map tolower ?ext = ''css''"
    "strcasecmp ?ext ''js'' = 0 \<longleftrightarrow> map tolower ?ext = ''js''"
    "strcasecmp ?ext ''json'' = 0 \<longleftrightarrow> map tolower ?ext = ''json''"
    "strcasecmp ?ext ''png'' = 0 \<longleftrightarrow> map tolower ?ext = ''png''"
    "strcasecmp ?ext ''jpg'' = 0 \<longleftrightarrow> map tolower ?ext = ''jpg''"
    "strcasecmp ?ext ''jpeg'' = 0 \<longleftrightarrow> map tolower ?ext = ''jpeg''"
    "strcasecmp ?ext ''gif'' = 0 \<longleftrightarrow> map tolower ?ext = ''gif''"
    "strcasecmp ?ext ''svg'' = 0 \<longleftrightarrow> map tolower ?ext = ''svg''"
    "strcasecmp ?ext ''ico'' = 0 \<longleftrightarrow> map tolower ?ext = ''ico''"
    "strcasecmp ?ext ''txt'' = 0 \<longleftrightarrow> map tolower ?ext = ''txt''"
    by (rule cmp; simp add: tolower_def NUL_def)+
  have "get_mime_type path =
        (case map_of spec_mime_table (map tolower ?ext) of
           None \<Rightarrow> ''application/octet-stream'' | Some t \<Rightarrow> t)"
    unfolding get_mime_type_def Some option.case Let_def c spec_mime_table_def
    by simp
  then show ?thesis using dotin ext by (simp add: spec_resolve_def)
qed

theorem get_mime_type_table_witness:
  "NUL \<notin> set ''style.CSS'' \<and> NUL \<notin> set ''noext'' \<and>
   get_mime_type ''style.CSS'' = ''text/css'' \<and>
   get_mime_type ''noext'' = ''application/octet-stream''"
proof -
  have a: "NUL \<notin> set ''style.CSS''" by (simp add: NUL_def)
  have b: "NUL \<notin> set ''noext''" by (simp add: NUL_def)
  have c: "spec_resolve ''style.CSS'' = ''text/css''"
    by code_simp
  have d: "spec_resolve ''noext'' = ''application/octet-stream''"
    by (simp add: spec_resolve_def)
  show ?thesis
    using get_mime_type_table [OF a] get_mime_type_table [OF b] a b c d by simp
qed

section \<open>The request parser\<close>

lemma strchr_takeWhile:
  "strchr s c = Some n \<Longrightarrow> takeWhile (\<lambda>x. x \<noteq> c) s = take n s"
proof (induction s arbitrary: n)
  case Nil
  then show ?case by simp
next
  case (Cons x xs)
  then show ?case by (cases n) (auto split: if_splits)
qed

lemma strchr_dropWhile:
  "strchr s c = Some n \<Longrightarrow> dropWhile (\<lambda>x. x \<noteq> c) s = c # drop (n + 1) s"
proof (induction s arbitrary: n)
  case Nil
  then show ?case by simp
next
  case (Cons x xs)
  then show ?case by (cases n) (auto split: if_splits)
qed

lemma strchr_filter:
  "strchr s c = Some n \<Longrightarrow>
   filter (\<lambda>x. x = c) s = c # filter (\<lambda>x. x = c) (drop (n + 1) s)"
proof (induction s arbitrary: n)
  case Nil
  then show ?case by simp
next
  case (Cons x xs)
  then show ?case by (cases n) (auto split: if_splits)
qed

lemma filter_eq_notin: "c \<notin> set a \<Longrightarrow> filter (\<lambda>x. x = c) a = []"
  by (induction a) auto

text \<open>
  C5, amended: for every request string and every buffer of at least two bytes,
  \<open>parse_request_path\<close> returns the substring between the first and the second
  space of the whole request string, whatever line they are on, cut to the
  \<open>pathbuflen - 1\<close> bytes that fit the buffer; when the request string has fewer
  than two spaces it returns \<open>/\<close>.
\<close>

theorem parse_request_path_buffer:
  assumes "1 < pathbuflen"
  shows "parse_request_path req pathbuflen = Some (spec_parse_buffer req pathbuflen)"
proof (cases "strchr req (CHR '' '')")
  case None
  then have "CHR '' '' \<notin> set req" by (simp add: strchr_None)
  then have "filter (\<lambda>x. x = CHR '' '') req = []" by (rule filter_eq_notin)
  then show ?thesis using None assms
    by (simp add: parse_request_path_def strncpy_def spec_parse_buffer_def spec_has_two_spaces_def)
next
  case (Some sp1)
  let ?rest = "drop (sp1 + 1) req"
  have cnt: "length (filter (\<lambda>x. x = CHR '' '') req) = 1 + length (filter (\<lambda>x. x = CHR '' '') ?rest)"
    by (simp add: strchr_filter [OF Some])
  have tok: "spec_token req = takeWhile (\<lambda>c. c \<noteq> CHR '' '') ?rest"
    unfolding spec_token_def by (simp add: strchr_dropWhile [OF Some])
  show ?thesis
  proof (cases "strchr ?rest (CHR '' '')")
    case None
    then have "CHR '' '' \<notin> set ?rest" by (simp add: strchr_None)
    then have "filter (\<lambda>x. x = CHR '' '') ?rest = []" by (rule filter_eq_notin)
    with cnt have "\<not> spec_has_two_spaces req" by (simp add: spec_has_two_spaces_def)
    then show ?thesis using None Some assms
      by (simp add: parse_request_path_def strncpy_def spec_parse_buffer_def)
  next
    case d: (Some d)
    have "1 \<le> length (filter (\<lambda>x. x = CHR '' '') ?rest)"
      using strchr_filter [OF d] by simp
    with cnt have two: "spec_has_two_spaces req" by (simp add: spec_has_two_spaces_def)
    from tok have tok': "spec_token req = take d ?rest"
      by (simp only: strchr_takeWhile [OF d])
    have m: "min (pathbuflen - 1) d = (if d \<ge> pathbuflen then pathbuflen - 1 else d)"
      by auto
    have "take (pathbuflen - 1) (take d ?rest) =
          take (if d \<ge> pathbuflen then pathbuflen - 1 else d) ?rest"
      by (simp only: take_take m)
    then show ?thesis using Some d two tok' assms
      by (auto simp: parse_request_path_def spec_parse_buffer_def Let_def)
  qed
qed

theorem parse_request_path_buffer_witness:
  "1 < PATH_BUF_SIZE \<and>
   parse_request_path (''GET /index.html HTTP/1.1'' @ CRLF @ ''Host: esp'' @ CRLF @ CRLF) PATH_BUF_SIZE =
     Some ''/index.html'' \<and>
   parse_request_path ''GET'' PATH_BUF_SIZE = Some ''/'' \<and>
   parse_request_path ''GET /abcdefgh HTTP/1.1'' 4 = Some ''/ab''"
proof -
  have b: "1 < PATH_BUF_SIZE" by (simp add: PATH_BUF_SIZE_def)
  have b4: "1 < (4::nat)" by simp
  have r1: "spec_parse_buffer (''GET /index.html HTTP/1.1'' @ CRLF @ ''Host: esp'' @ CRLF @ CRLF)
              PATH_BUF_SIZE = ''/index.html''"
    by (simp add: spec_parse_buffer_def spec_has_two_spaces_def spec_token_def CRLF_def
        PATH_BUF_SIZE_def)
  have r2: "spec_parse_buffer ''GET'' PATH_BUF_SIZE = ''/''"
    by (simp add: spec_parse_buffer_def spec_has_two_spaces_def)
  have r3: "spec_parse_buffer ''GET /abcdefgh HTTP/1.1'' 4 = ''/ab''"
    by (simp add: spec_parse_buffer_def spec_has_two_spaces_def spec_token_def)
  show ?thesis
    using b r1 r2 r3
      parse_request_path_buffer [OF b,
        of "''GET /index.html HTTP/1.1'' @ CRLF @ ''Host: esp'' @ CRLF @ CRLF"]
      parse_request_path_buffer [OF b, of "''GET''"]
      parse_request_path_buffer [OF b4, of "''GET /abcdefgh HTTP/1.1''"]
    by simp
qed

text \<open>
  C5, as stated: the two spaces would be those of the first line.  For the request
  \<open>GET /x\<close>, CR LF, \<open>Host: h\<close> the first line has one space only, so the path
  would be \<open>/\<close>; the parser takes the space after \<open>Host:\<close> as the second one
  and returns \<open>/x\<close>, CR LF, \<open>Host:\<close>.
\<close>

theorem parse_request_path_not_first_line:
  "parse_request_path (''GET /x'' @ CRLF @ ''Host: h'' @ CRLF @ CRLF) PATH_BUF_SIZE =
     Some (''/x'' @ CRLF @ ''Host:'') \<and>
   spec_parse_first_line (''GET /x'' @ CRLF @ ''Host: h'' @ CRLF @ CRLF) PATH_BUF_SIZE = ''/'' \<and>
   parse_request_path (''GET /x'' @ CRLF @ ''Host: h'' @ CRLF @ CRLF) PATH_BUF_SIZE \<noteq>
     Some (spec_parse_first_line (''GET /x'' @ CRLF @ ''Host: h'' @ CRLF @ CRLF) PATH_BUF_SIZE)"
  by code_simp

section \<open>The calls on the environment\<close>

lemma sock_send_facts:
  assumes "sock_send w buf = (s, w')"
  shows "fs w' = fs w" "inbound w' = inbound w" "net w' = net w" "nsend w' = nsend w + 1"
    "trace w' = trace w @ [EvSend buf s]" "s \<le> int (length buf)"
    "s < 0 \<longleftrightarrow> net w (nsend w) < 0"
    "s = 0 \<longleftrightarrow> net w (nsend w) = 0 \<or> (0 \<le> net w (nsend w) \<and> buf = [])"
  using assms by (auto simp: sock_send_def Let_def min_def split: if_splits)

lemma accepted_append: "accepted (a @ b) = accepted a @ accepted b"
  by (simp add: accepted_def)

lemma accepted_Nil: "accepted [] = []"
  by (simp add: accepted_def)

lemma accepted_send: "accepted [EvSend buf s] = take (nat s) buf"
  by (simp add: accepted_def)

lemma send_chunk_post:
  assumes "send_chunk w0 buf0 sent0 = Some r0"
  shows "chunk_post w0 buf0 sent0 r0"
proof (rule send_chunk.raw_induct [OF _ assms])
  fix f w buf sent r
  assume IH: "\<And>w buf sent r. f w buf sent = Some r \<Longrightarrow> chunk_post w buf sent r"
    and body: "(if sent < length buf then
                  (case sock_send w (drop sent buf) of
                     (s, w') \<Rightarrow> if s < 0 then Some (False, w') else f w' buf (sent + nat s))
                else Some (True, w)) = Some r"
  show "chunk_post w buf sent r"
  proof (cases "sent < length buf")
    case False
    with body have "r = (True, w)" by simp
    with False show ?thesis by (simp add: chunk_post_def accepted_Nil)
  next
    case True
    obtain s w1 where ss: "sock_send w (drop sent buf) = (s, w1)" by (cases "sock_send w (drop sent buf)")
    note f = sock_send_facts [OF ss]
    show ?thesis
    proof (cases "s < 0")
      case neg: True
      with body True ss have "r = (False, w1)" by simp
      then show ?thesis using f neg by (auto simp: chunk_post_def)
    next
      case nonneg: False
      with body True ss have rec: "f w1 buf (sent + nat s) = Some r" by simp
      from IH [OF rec] have ih: "chunk_post w1 buf (sent + nat s) r" .
      obtain ok w' where r: "r = (ok, w')" by (cases r)
      from ih r have okf: "ok \<or> (\<exists>i. net w i < 0)" using f(3) by (auto simp: chunk_post_def)
      from ih r obtain evs where evs: "fs w' = fs w1" "inbound w' = inbound w1" "net w' = net w1"
        "trace w' = trace w1 @ evs"
        "if ok then list_all send_ok evs \<and> accepted evs = drop (sent + nat s) buf
            else \<exists>evs0 b s. evs = evs0 @ [EvSend b s] \<and> s < 0 \<and> list_all send_ok evs0"
        by (auto simp: chunk_post_def)
      let ?e = "EvSend (drop sent buf) s"
      have tr: "trace w' = trace w @ (?e # evs)" using evs(4) f(5) by simp
      have acc: "accepted (?e # evs) = take (nat s) (drop sent buf) @ accepted evs"
        by (simp add: accepted_def)
      have dd: "take (nat s) (drop sent buf) @ drop (sent + nat s) buf = drop sent buf"
        by (metis add.commute append_take_drop_id drop_drop)
      have post: "if ok then list_all send_ok (?e # evs) \<and> accepted (?e # evs) = drop sent buf
            else \<exists>evs0 b s. ?e # evs = evs0 @ [EvSend b s] \<and> s < 0 \<and> list_all send_ok evs0"
      proof (cases ok)
        case True
        with evs(5) nonneg acc dd show ?thesis by simp
      next
        case False
        with evs(5) obtain evs0 b s' where "evs = evs0 @ [EvSend b s']" "s' < 0" "list_all send_ok evs0"
          by auto
        then have "?e # evs = (?e # evs0) @ [EvSend b s'] \<and> s' < 0 \<and> list_all send_ok (?e # evs0)"
          using nonneg by simp
        with False show ?thesis by metis
      qed
      show ?thesis
        unfolding chunk_post_def r using evs(1-3) f(1-3) tr post okf by auto
    qed
  qed
qed

lemma send_chunk_total:
  assumes "\<forall>i. net w i \<noteq> 0" "sent \<le> length buf"
  shows "\<exists>r. send_chunk w buf sent = Some r"
  using assms
proof (induction "length buf - sent" arbitrary: w sent rule: less_induct)
  case less
  show ?case
  proof (cases "sent < length buf")
    case False
    then show ?thesis by (subst send_chunk.simps) auto
  next
    case True
    obtain s w1 where ss: "sock_send w (drop sent buf) = (s, w1)" by (cases "sock_send w (drop sent buf)")
    note f = sock_send_facts [OF ss]
    show ?thesis
    proof (cases "s < 0")
      case neg: True
      then show ?thesis using True ss by (subst send_chunk.simps) auto
    next
      case nonneg: False
      have "s \<noteq> 0" using f(8) less.prems(1) True by auto
      with nonneg have pos: "0 < s" by simp
      have le: "sent + nat s \<le> length buf" using f(6) True by simp
      have "length buf - (sent + nat s) < length buf - sent" using pos True by linarith
      moreover have "\<forall>i. net w1 i \<noteq> 0" using less.prems(1) f(3) by simp
      ultimately have "\<exists>r. send_chunk w1 buf (sent + nat s) = Some r"
        using less.hyps le by blast
      then show ?thesis using True ss nonneg by (subst send_chunk.simps) simp
    qed
  qed
qed



lemma FILE_CHUNK_pos: "0 < FILE_CHUNK" "FILE_CHUNK \<noteq> 0"
  by (simp_all add: FILE_CHUNK_def)

lemma take_chunk_drop: "take n rest @ drop (length (take n rest)) rest = rest"
  by (simp add: min_def)

lemma stream_body_post:
  "stream_body w rest = Some w' \<Longrightarrow> body_post w rest w'"
proof (induction w rest arbitrary: w' rule: stream_body.induct)
  case (1 w rest)
  let ?buf = "take FILE_CHUNK rest"
  show ?case
  proof (cases "0 < length ?buf")
    case False
    then have "rest = []" by (simp add: FILE_CHUNK_def)
    moreover from "1.prems" False have "w' = log_event w EvFclose"
      by (subst (asm) stream_body.simps) (simp add: Let_def FILE_CHUNK_pos)
    ultimately show ?thesis by (simp add: body_post_def log_event_def accepted_Nil)
  next
    case True
    from "1.prems" True obtain ok w1 where sc: "send_chunk w ?buf 0 = Some (ok, w1)"
      by (subst (asm) stream_body.simps) (auto simp: Let_def split: option.splits)
    from send_chunk_post [OF sc] obtain evs1 where c: "fs w1 = fs w" "inbound w1 = inbound w"
      "net w1 = net w" "ok \<or> (\<exists>i. net w i < 0)" "trace w1 = trace w @ evs1"
      "if ok then list_all send_ok evs1 \<and> accepted evs1 = ?buf
       else \<exists>evs0 b s. evs1 = evs0 @ [EvSend b s] \<and> s < 0 \<and> list_all send_ok evs0"
      by (auto simp: chunk_post_def)
    show ?thesis
    proof (cases ok)
      case False
      with "1.prems" True sc have "w' = log_event w1 EvFclose"
        by (subst (asm) stream_body.simps) (simp add: Let_def)
      then show ?thesis using c False by (auto simp: body_post_def log_event_def)
    next
      case ok: True
      with "1.prems" True sc have rec: "stream_body w1 (drop (length ?buf) rest) = Some w'"
        by (subst (asm) stream_body.simps) (simp add: Let_def)
      from "1.IH" [OF refl refl True sc refl ok rec]
      have ih: "body_post w1 (drop (length ?buf) rest) w'" .
      then obtain evs2 where b: "fs w' = fs w1" "inbound w' = inbound w1" "net w' = net w1"
        "trace w' = trace w1 @ evs2 @ [EvFclose]"
        "(list_all send_ok evs2 \<and> accepted evs2 = drop (length ?buf) rest) \<or>
          ((\<exists>i. net w1 i < 0) \<and>
           (\<exists>evs0 b s. evs2 = evs0 @ [EvSend b s] \<and> s < 0 \<and> list_all send_ok evs0))"
        by (auto simp: body_post_def)
      have c6: "list_all send_ok evs1" "accepted evs1 = ?buf" using c(6) ok by auto
      have tr: "trace w' = trace w @ (evs1 @ evs2) @ [EvFclose]" using b(4) c(5) by simp
      have "(list_all send_ok (evs1 @ evs2) \<and> accepted (evs1 @ evs2) = rest) \<or>
          ((\<exists>i. net w i < 0) \<and>
           (\<exists>evs0 b s. evs1 @ evs2 = evs0 @ [EvSend b s] \<and> s < 0 \<and> list_all send_ok evs0))"
        using b(5)
      proof
        assume "list_all send_ok evs2 \<and> accepted evs2 = drop (length ?buf) rest"
        then have "list_all send_ok (evs1 @ evs2) \<and> accepted (evs1 @ evs2) = rest"
          using c6 take_chunk_drop [of FILE_CHUNK rest] by (simp add: accepted_append)
        then show ?thesis ..
      next
        assume "(\<exists>i. net w1 i < 0) \<and>
           (\<exists>evs0 b s. evs2 = evs0 @ [EvSend b s] \<and> s < 0 \<and> list_all send_ok evs0)"
        then obtain evs0 b s where f: "\<exists>i. net w1 i < 0" "evs2 = evs0 @ [EvSend b s]" "s < 0"
          "list_all send_ok evs0" by auto
        have "evs1 @ evs2 = (evs1 @ evs0) @ [EvSend b s] \<and> s < 0 \<and> list_all send_ok (evs1 @ evs0)"
          using f c6 by simp
        then have "\<exists>evs0 b s. evs1 @ evs2 = evs0 @ [EvSend b s] \<and> s < 0 \<and> list_all send_ok evs0"
          by blast
        with f(1) c(3) show ?thesis by simp
      qed
      with tr b(1-3) c(1-3) show ?thesis unfolding body_post_def by auto
    qed
  qed
qed

lemma stream_body_total:
  "\<forall>i. net w i \<noteq> 0 \<Longrightarrow> \<exists>w'. stream_body w rest = Some w'"
proof (induction w rest rule: stream_body.induct)
  case (1 w rest)
  let ?buf = "take FILE_CHUNK rest"
  show ?case
  proof (cases "0 < length ?buf")
    case False
    then show ?thesis by (subst stream_body.simps) (simp add: Let_def FILE_CHUNK_pos)
  next
    case True
    from send_chunk_total [OF "1.prems", of 0 ?buf] obtain ok w1
      where sc: "send_chunk w ?buf 0 = Some (ok, w1)" by auto
    show ?thesis
    proof (cases ok)
      case False
      with sc True show ?thesis by (subst stream_body.simps) (simp add: Let_def)
    next
      case ok: True
      from send_chunk_post [OF sc] have "net w1 = net w" by (simp add: chunk_post_def)
      with "1.prems" have "\<forall>i. net w1 i \<noteq> 0" by simp
      from "1.IH" [OF refl refl True sc refl ok this]
      obtain w' where "stream_body w1 (drop (length ?buf) rest) = Some w'" by auto
      with sc True ok show ?thesis by (subst stream_body.simps) (simp add: Let_def)
    qed
  qed
qed

lemma stream_body_ok:
  assumes "\<forall>i. 0 < net w i"
  shows "\<exists>w' evs. stream_body w rest = Some w' \<and> trace w' = trace w @ evs @ [EvFclose] \<and>
           list_all send_ok evs \<and> accepted evs = rest"
proof -
  have "\<forall>i. net w i \<noteq> 0" using assms by (metis less_irrefl)
  from stream_body_total [OF this] obtain w' where r: "stream_body w rest = Some w'" by auto
  have "\<not> (\<exists>i. net w i < 0)" using assms by (metis less_asym)
  with stream_body_post [OF r] r show ?thesis by (auto simp: body_post_def)
qed

section \<open>Headers\<close>

lemma dec_digits_length: "n < 10 ^ k \<Longrightarrow> 0 < k \<Longrightarrow> length (dec_digits n) \<le> k"
proof (induction k arbitrary: n)
  case 0
  then show ?case by simp
next
  case (Suc k)
  show ?case
  proof (cases "n < 10")
    case True
    then show ?thesis by (subst dec_digits.simps) simp
  next
    case False
    then have k: "0 < k" using Suc.prems(1) by (cases k) auto
    have "n div 10 < 10 ^ k" using Suc.prems(1) by (simp add: less_mult_imp_div_less mult.commute)
    from Suc.IH [OF this k] have "length (dec_digits (n div 10)) \<le> k" .
    with False show ?thesis by (subst dec_digits.simps) simp
  qed
qed

lemma long_of_nat_range: "- (2 ^ 31) \<le> long_of_nat n" "long_of_nat n < 2 ^ 31"
proof -
  have "0 \<le> (int n + 2 ^ 31) mod 2 ^ 32" by simp
  then show "- (2 ^ 31) \<le> long_of_nat n" by (simp add: long_of_nat_def)
  have "(int n + 2 ^ 31) mod 2 ^ 32 < 2 ^ 32" by simp
  then show "long_of_nat n < 2 ^ 31" by (simp add: long_of_nat_def)
qed

lemma long_of_nat_small: "n < 2 ^ 31 \<Longrightarrow> long_of_nat n = int n"
  by (simp add: long_of_nat_def)

lemma fmt_d_long_length: "length (fmt_d (long_of_nat n)) \<le> 11"
proof -
  let ?x = "long_of_nat n"
  have "nat \<bar>?x\<bar> \<le> 2 ^ 31" using long_of_nat_range [of n] by simp
  also have "\<dots> < (10::nat) ^ 10" by simp
  finally have "length (dec_digits (nat \<bar>?x\<bar>)) \<le> 10" by (rule dec_digits_length) simp
  then show ?thesis by (auto simp: fmt_d_def abs_if)
qed

lemma get_mime_type_length: "length (get_mime_type p) \<le> 25"
  by (simp add: get_mime_type_def Let_def split: option.splits)

lemma header_200_fits: "header_bytes (header_200 (get_mime_type p) (long_of_nat n)) =
    Some (header_200 (get_mime_type p) (long_of_nat n))"
  using get_mime_type_length [of p] fmt_d_long_length [of n]
  by (simp add: header_bytes_def header_200_def CRLF_def HEADER_SIZE_def)

lemma header_200_length: "length (header_200 (get_mime_type p) (long_of_nat n)) < 256"
  using get_mime_type_length [of p] fmt_d_long_length [of n]
  by (simp add: header_200_def CRLF_def)

lemma fmt_d_48: "fmt_d 48 = ''48''"
  by code_simp

lemma header_404_text:
  "header_404 (int (length body_404)) =
     ''HTTP/1.1 404 Not Found'' @ CRLF @ ''Content-Type: text/html; charset=utf-8'' @ CRLF @
     ''Content-Length: 48'' @ CRLF @ ''Connection: close'' @ CRLF @ CRLF"
  by (simp add: header_404_def body_404_def fmt_d_48)

lemma header_404_fits:
  "header_bytes (header_404 (int (length body_404))) = Some (header_404 (int (length body_404)))"
  by (simp add: header_404_text header_bytes_def HEADER_SIZE_def CRLF_def)

lemma header_404_status: "take 12 (header_404 n) = ''HTTP/1.1 404''"
  by (simp add: header_404_def)

lemma header_200_status: "take 12 (header_200 m n) = ''HTTP/1.1 200''"
  by (simp add: header_200_def)

lemma send_404_result:
  "\<exists>s1 s2 w'. send_404 w = Some w' \<and>
      (s1, w\<lparr>nsend := nsend w + 1, trace := trace w @ [EvSend (header_404 (int (length body_404))) s1]\<rparr>) =
        sock_send w (header_404 (int (length body_404))) \<and>
      trace w' = trace w @ [EvSend (header_404 (int (length body_404))) s1, EvSend body_404 s2] \<and>
      fs w' = fs w \<and> inbound w' = inbound w \<and> net w' = net w"
  by (simp add: send_404_def Let_def header_404_fits sock_send_def split: prod.splits)


lemma log_event_simps [simp]:
  "fs (log_event w e) = fs w" "inbound (log_event w e) = inbound w"
  "net (log_event w e) = net w" "nsend (log_event w e) = nsend w"
  "trace (log_event w e) = trace w @ [e]"
  by (simp_all add: log_event_def)

lemma send_ok_imp_file_event: "send_ok e \<Longrightarrow> file_event e"
  by (cases e) simp_all

lemma send_ok_file_event: "list_all send_ok evs \<Longrightarrow> list_all file_event evs"
  by (simp add: list_all_iff send_ok_imp_file_event)

lemma send_file_found:
  assumes "fs w p = Some c"
  shows "send_file w p fb =
         stream_body (snd (sock_send (log_event w (EvFopen p True))
                        (header_200 (get_mime_type p) (long_of_nat (length c))))) c"
  by (subst send_file.simps) (simp add: assms Let_def header_200_fits split: prod.splits)

lemma send_file_missing:
  assumes "fs w p = None"
  shows "send_file w p False = send_file (log_event w (EvFopen p False)) FALLBACK_PATH True"
    and "send_file w p True = send_404 (log_event w (EvFopen p False))"
proof -
  show "send_file w p False = send_file (log_event w (EvFopen p False)) FALLBACK_PATH True"
    by (subst send_file.simps) (simp add: Let_def assms)
  show "send_file w p True = send_404 (log_event w (EvFopen p False))"
    by (subst send_file.simps) (simp add: Let_def assms)
qed

lemma send_file_found_post:
  assumes "fs w p = Some c" "send_file w p fb = Some w'"
  shows "\<exists>s evs. trace w' = trace w @ [EvFopen p True,
             EvSend (header_200 (get_mime_type p) (long_of_nat (length c))) s] @ evs @ [EvFclose] \<and>
           s = fst (sock_send (log_event w (EvFopen p True))
                        (header_200 (get_mime_type p) (long_of_nat (length c)))) \<and>
           fs w' = fs w \<and> inbound w' = inbound w \<and> net w' = net w \<and>
           ((list_all send_ok evs \<and> accepted evs = c) \<or>
            ((\<exists>i. net w i < 0) \<and>
             (\<exists>evs0 b s'. evs = evs0 @ [EvSend b s'] \<and> s' < 0 \<and> list_all send_ok evs0)))"
proof -
  let ?h = "header_200 (get_mime_type p) (long_of_nat (length c))"
  let ?w0 = "log_event w (EvFopen p True)"
  obtain s w1 where ss: "sock_send ?w0 ?h = (s, w1)" by (cases "sock_send ?w0 ?h")
  note f = sock_send_facts [OF ss]
  from assms ss have "stream_body w1 c = Some w'" by (simp add: send_file_found)
  from stream_body_post [OF this] obtain evs where b: "fs w' = fs w1" "inbound w' = inbound w1"
    "net w' = net w1" "trace w' = trace w1 @ evs @ [EvFclose]"
    "(list_all send_ok evs \<and> accepted evs = c) \<or>
          ((\<exists>i. net w1 i < 0) \<and>
           (\<exists>evs0 b s. evs = evs0 @ [EvSend b s] \<and> s < 0 \<and> list_all send_ok evs0))"
    by (auto simp: body_post_def)
  have "trace w' = trace w @ [EvFopen p True, EvSend ?h s] @ evs @ [EvFclose]"
    using b(4) f(5) by simp
  moreover have "s = fst (sock_send ?w0 ?h)" using ss by simp
  moreover have "fs w' = fs w" "inbound w' = inbound w" "net w' = net w"
    using b(1-3) f(1-3) by simp_all
  moreover have "(list_all send_ok evs \<and> accepted evs = c) \<or>
            ((\<exists>i. net w i < 0) \<and>
             (\<exists>evs0 b s'. evs = evs0 @ [EvSend b s'] \<and> s' < 0 \<and> list_all send_ok evs0))"
    using b(5) f(3) by simp
  ultimately show ?thesis by blast
qed

lemma emits_404_simps:
  "emits_404 (EvFopen p ok # evs) = emits_404 evs"
  "emits_404 (EvSend h s # evs) = (take 12 h = ''HTTP/1.1 404'')"
  by (simp_all add: emits_404_def)

lemma send_file_post_found:
  assumes "fs w p = Some c" "send_file w p fb = Some w'"
  shows "file_post w p fb w'"
proof -
  let ?h = "header_200 (get_mime_type p) (long_of_nat (length c))"
  from send_file_found_post [OF assms] obtain s evs where
    t: "trace w' = trace w @ [EvFopen p True, EvSend ?h s] @ evs @ [EvFclose]"
    and e: "fs w' = fs w" "inbound w' = inbound w" "net w' = net w"
    and o: "(list_all send_ok evs \<and> accepted evs = c) \<or>
            ((\<exists>i. net w i < 0) \<and>
             (\<exists>evs0 b s'. evs = evs0 @ [EvSend b s'] \<and> s' < 0 \<and> list_all send_ok evs0))"
    by blast
  let ?evs = "[EvFopen p True, EvSend ?h s] @ evs @ [EvFclose]"
  from o have fe: "list_all file_event evs"
  proof
    assume "list_all send_ok evs \<and> accepted evs = c"
    then show ?thesis by (simp add: send_ok_file_event)
  next
    assume "(\<exists>i. net w i < 0) \<and>
             (\<exists>evs0 b s'. evs = evs0 @ [EvSend b s'] \<and> s' < 0 \<and> list_all send_ok evs0)"
    then obtain evs0 b s' where "evs = evs0 @ [EvSend b s']" "list_all send_ok evs0" by blast
    then show ?thesis by (simp add: send_ok_file_event)
  qed
  then have fa: "list_all file_event ?evs" by simp
  have "take 12 ?h \<noteq> ''HTTP/1.1 404''" by (simp only: header_200_status) simp
  then have ne: "\<not> emits_404 ?evs" by (simp add: emits_404_simps)
  have "trace w' = trace w @ ?evs \<and> list_all file_event ?evs \<and>
        (emits_404 ?evs \<longleftrightarrow> fs w p = None \<and> (fb \<or> fs w FALLBACK_PATH = None))"
    using t fa ne assms(1) by simp
  then have "\<exists>evs. trace w' = trace w @ evs \<and> list_all file_event evs \<and>
        (emits_404 evs \<longleftrightarrow> fs w p = None \<and> (fb \<or> fs w FALLBACK_PATH = None))" ..
  with e show ?thesis unfolding file_post_def by simp
qed

lemma send_file_post_fallback:
  assumes "send_file w p True = Some w'"
  shows "file_post w p True w'"
proof (cases "fs w p")
  case (Some c)
  then show ?thesis using assms by (rule send_file_post_found)
next
  case None
  let ?w0 = "log_event w (EvFopen p False)"
  from send_404_result [of ?w0] obtain s1 s2 w'' where r: "send_404 ?w0 = Some w''"
    "trace w'' = trace ?w0 @ [EvSend (header_404 (int (length body_404))) s1, EvSend body_404 s2]"
    "fs w'' = fs ?w0" "inbound w'' = inbound ?w0" "net w'' = net ?w0" by blast
  with assms None have w': "w' = w''" by (simp add: send_file_missing)
  have "trace w' = trace w @ [EvFopen p False, EvSend (header_404 (int (length body_404))) s1,
          EvSend body_404 s2]" using r(2) w' by simp
  moreover have "emits_404 [EvFopen p False, EvSend (header_404 (int (length body_404))) s1,
          EvSend body_404 s2]" by (simp add: emits_404_simps header_404_status)
  moreover have "list_all file_event [EvFopen p False, EvSend (header_404 (int (length body_404))) s1,
          EvSend body_404 s2]" by simp
  ultimately show ?thesis using None r(3-5) w' unfolding file_post_def by auto
qed

lemma send_file_post:
  assumes "send_file w p fb = Some w'"
  shows "file_post w p fb w'"
proof (cases fb)
  case True
  with assms show ?thesis by (simp add: send_file_post_fallback)
next
  case False
  show ?thesis
  proof (cases "fs w p")
    case (Some c)
    then show ?thesis using assms by (rule send_file_post_found)
  next
    case None
    let ?w0 = "log_event w (EvFopen p False)"
    from assms None False have "send_file ?w0 FALLBACK_PATH True = Some w'"
      by (simp add: send_file_missing)
    from send_file_post_fallback [OF this] obtain evs where
      e: "fs w' = fs ?w0" "inbound w' = inbound ?w0" "net w' = net ?w0"
      "trace w' = trace ?w0 @ evs" "list_all file_event evs"
      "emits_404 evs \<longleftrightarrow> fs ?w0 FALLBACK_PATH = None"
      by (auto simp: file_post_def)
    have "trace w' = trace w @ (EvFopen p False # evs)" using e(4) by simp
    moreover have "list_all file_event (EvFopen p False # evs)" using e(5) by simp
    moreover have "emits_404 (EvFopen p False # evs) \<longleftrightarrow> fs w FALLBACK_PATH = None"
      using e(6) by (simp add: emits_404_simps)
    ultimately show ?thesis using None False e(1-3) unfolding file_post_def by auto
  qed
qed

lemma send_file_total:
  assumes "\<forall>i. net w i \<noteq> 0"
  shows "\<exists>w'. send_file w p fb = Some w'"
proof -
  have found: "\<exists>w'. send_file w p fb = Some w'" if "fs w p = Some c" "\<forall>i. net w i \<noteq> 0" for w p fb c
  proof -
    let ?w0 = "log_event w (EvFopen p True)"
    let ?h = "header_200 (get_mime_type p) (long_of_nat (length c))"
    obtain s w1 where ss: "sock_send ?w0 ?h = (s, w1)" by (cases "sock_send ?w0 ?h")
    from sock_send_facts(3) [OF ss] that(2) have "\<forall>i. net w1 i \<noteq> 0" by simp
    from stream_body_total [OF this] show ?thesis using that(1) ss by (simp add: send_file_found)
  qed
  have fb: "\<exists>w'. send_file w p True = Some w'" if "\<forall>i. net w i \<noteq> 0" for w p
  proof (cases "fs w p")
    case (Some c)
    then show ?thesis using that by (rule found)
  next
    case None
    then show ?thesis using send_404_result [of "log_event w (EvFopen p False)"]
      by (auto simp: send_file_missing)
  qed
  show ?thesis
  proof (cases "fs w p")
    case (Some c)
    then show ?thesis using assms by (rule found)
  next
    case None
    show ?thesis
    proof (cases fb)
      case True
      then show ?thesis using fb [OF assms] by simp
    next
      case False
      have "\<forall>i. net (log_event w (EvFopen p False)) i \<noteq> 0" using assms by simp
      from fb [OF this] show ?thesis using None False by (simp add: send_file_missing)
    qed
  qed
qed

section \<open>send\_file: fallback and 404\<close>

lemma new_events_append: "trace w' = trace w @ evs \<Longrightarrow> new_events w w' = evs"
  by (simp add: new_events_def)



lemma send_file_fallback_404:
  assumes "fs w p = None"
  shows "\<exists>s1 s2 w'. send_file w p True = Some w' \<and>
         trace w' = trace w @ [EvFopen p False,
           EvSend (header_404 (int (length body_404))) s1, EvSend body_404 s2]"
proof -
  let ?h = "header_404 (int (length body_404))"
  from send_404_result [of "log_event w (EvFopen p False)"] obtain s1 s2 w' where
    "send_404 (log_event w (EvFopen p False)) = Some w'"
    "trace w' = trace (log_event w (EvFopen p False)) @ [EvSend ?h s1, EvSend body_404 s2]"
    by blast
  then have "send_file w p True = Some w' \<and>
         trace w' = trace w @ [EvFopen p False, EvSend ?h s1, EvSend body_404 s2]"
    using assms by (simp add: send_file_missing)
  then show ?thesis by blast
qed

lemma send_file_both_missing:
  assumes "fs w p = None" "fs w FALLBACK_PATH = None"
  shows "\<exists>s1 s2 w'. send_file w p False = Some w' \<and>
         trace w' = trace w @ [EvFopen p False, EvFopen FALLBACK_PATH False,
           EvSend (header_404 (int (length body_404))) s1, EvSend body_404 s2]"
proof -
  let ?h = "header_404 (int (length body_404))"
  let ?w0 = "log_event w (EvFopen p False)"
  from assms(2) have "fs ?w0 FALLBACK_PATH = None" by simp
  from send_file_fallback_404 [OF this] obtain s1 s2 w' where
    "send_file ?w0 FALLBACK_PATH True = Some w'"
    "trace w' = trace ?w0 @ [EvFopen FALLBACK_PATH False, EvSend ?h s1, EvSend body_404 s2]"
    by blast
  then have "send_file w p False = Some w' \<and>
         trace w' = trace w @ [EvFopen p False, EvFopen FALLBACK_PATH False,
           EvSend ?h s1, EvSend body_404 s2]"
    using assms(1) by (simp add: send_file_missing)
  then show ?thesis by blast
qed

lemma send_file_emits_404_iff:
  assumes "send_file w p fb = Some w'"
  shows "emits_404 (new_events w w') \<longleftrightarrow> fs w p = None \<and> (fb \<or> fs w FALLBACK_PATH = None)"
proof -
  from send_file_post [OF assms]
  have "\<exists>evs. trace w' = trace w @ evs \<and> list_all file_event evs \<and>
         (emits_404 evs \<longleftrightarrow> fs w p = None \<and> (fb \<or> fs w FALLBACK_PATH = None))"
    by (simp add: file_post_def)
  then obtain evs where t: "trace w' = trace w @ evs"
    and e: "emits_404 evs \<longleftrightarrow> fs w p = None \<and> (fb \<or> fs w FALLBACK_PATH = None)"
    by (elim exE conjE)
  from e show ?thesis by (simp only: new_events_append [OF t])
qed

lemma send_file_fallback_cases:
  "(fs w p = None \<longrightarrow>
      send_file w p False = send_file (log_event w (EvFopen p False)) FALLBACK_PATH True) \<and>
   (fs w p = None \<longrightarrow>
      (\<exists>s1 s2 w'. send_file w p True = Some w' \<and>
         trace w' = trace w @ [EvFopen p False,
           EvSend (header_404 (int (length body_404))) s1, EvSend body_404 s2])) \<and>
   (fs w p = None \<longrightarrow> fs w FALLBACK_PATH = None \<longrightarrow>
      (\<exists>s1 s2 w'. send_file w p False = Some w' \<and>
         trace w' = trace w @ [EvFopen p False, EvFopen FALLBACK_PATH False,
           EvSend (header_404 (int (length body_404))) s1, EvSend body_404 s2])) \<and>
   header_404 (int (length body_404)) =
     ''HTTP/1.1 404 Not Found'' @ CRLF @ ''Content-Type: text/html; charset=utf-8'' @ CRLF @
     ''Content-Length: 48'' @ CRLF @ ''Connection: close'' @ CRLF @ CRLF \<and>
   body_404 = ''<html><body><h1>404 Not Found</h1></body></html>'' \<and>
   length body_404 = 48 \<and>
   (\<forall>w'. send_file w p fb = Some w' \<longrightarrow>
      (emits_404 (new_events w w') \<longleftrightarrow> fs w p = None \<and> (fb \<or> fs w FALLBACK_PATH = None)))"
proof (intro conjI impI allI)
  assume "fs w p = None"
  then show "send_file w p False = send_file (log_event w (EvFopen p False)) FALLBACK_PATH True"
    by (rule send_file_missing(1))
next
  assume "fs w p = None"
  then show "\<exists>s1 s2 w'. send_file w p True = Some w' \<and>
         trace w' = trace w @ [EvFopen p False,
           EvSend (header_404 (int (length body_404))) s1, EvSend body_404 s2]"
    by (rule send_file_fallback_404)
next
  assume "fs w p = None" "fs w FALLBACK_PATH = None"
  then show "\<exists>s1 s2 w'. send_file w p False = Some w' \<and>
         trace w' = trace w @ [EvFopen p False, EvFopen FALLBACK_PATH False,
           EvSend (header_404 (int (length body_404))) s1, EvSend body_404 s2]"
    by (rule send_file_both_missing)
next
  show "header_404 (int (length body_404)) =
     ''HTTP/1.1 404 Not Found'' @ CRLF @ ''Content-Type: text/html; charset=utf-8'' @ CRLF @
     ''Content-Length: 48'' @ CRLF @ ''Connection: close'' @ CRLF @ CRLF"
    by (rule header_404_text)
next
  show "body_404 = ''<html><body><h1>404 Not Found</h1></body></html>''"
    by (rule body_404_def)
next
  show "length body_404 = 48" by (simp add: body_404_def)
next
  fix w' assume "send_file w p fb = Some w'"
  then show "emits_404 (new_events w w') \<longleftrightarrow> fs w p = None \<and> (fb \<or> fs w FALLBACK_PATH = None)"
    by (rule send_file_emits_404_iff)
qed

lemma conj7_snoc:
  "A \<and> B \<and> C \<and> D \<and> E \<and> F \<and> G \<Longrightarrow> H \<Longrightarrow>
   A \<and> B \<and> C \<and> D \<and> E \<and> F \<and> G \<and> H"
  by blast

text \<open>
  C3.  When the open fails and the call is not the fallback attempt, \<open>send_file\<close> is
  the one call of itself on the fallback path \<open>/spiffs/index.html\<close> with the flag
  set; when the open fails in the fallback attempt it sends the 404 header and then the
  404 body and opens nothing more, so a request for which both opens fail makes two
  \<open>fopen\<close> calls, the second on \<open>/spiffs/index.html\<close>, then the two sends.  The
  body is the fixed text, and the header announces its length, 48.  A finished call has
  started its response with the 404 status exactly when the open failed and either the
  call was the fallback attempt or \<open>/spiffs/index.html\<close> is missing too.
\<close>

theorem send_file_fallback_then_404:
  "(fs w p = None \<longrightarrow>
      send_file w p False =
        send_file (log_event w (EvFopen p False)) ''/spiffs/index.html'' True) \<and>
   (fs w p = None \<longrightarrow>
      (\<exists>s1 s2 w'. send_file w p True = Some w' \<and>
         trace w' = trace w @ [EvFopen p False,
           EvSend (header_404 (int (length body_404))) s1, EvSend body_404 s2])) \<and>
   (fs w p = None \<longrightarrow> fs w ''/spiffs/index.html'' = None \<longrightarrow>
      (\<exists>s1 s2 w'. send_file w p False = Some w' \<and>
         trace w' = trace w @ [EvFopen p False, EvFopen ''/spiffs/index.html'' False,
           EvSend (header_404 (int (length body_404))) s1, EvSend body_404 s2])) \<and>
   header_404 (int (length body_404)) =
     ''HTTP/1.1 404 Not Found'' @ [CHR 0x0D, CHR 0x0A] @
     ''Content-Type: text/html; charset=utf-8'' @ [CHR 0x0D, CHR 0x0A] @
     ''Content-Length: 48'' @ [CHR 0x0D, CHR 0x0A] @
     ''Connection: close'' @ [CHR 0x0D, CHR 0x0A] @ [CHR 0x0D, CHR 0x0A] \<and>
   body_404 = ''<html><body><h1>404 Not Found</h1></body></html>'' \<and>
   length body_404 = 48 \<and>
   (\<forall>w'. send_file w p fb = Some w' \<longrightarrow>
      (emits_404 (new_events w w') \<longleftrightarrow>
       fs w p = None \<and> (fb \<or> fs w ''/spiffs/index.html'' = None))) \<and>
   FALLBACK_PATH = ''/spiffs/index.html''"
proof -
  note c = send_file_fallback_cases [of w p fb, unfolded FALLBACK_PATH_def CRLF_def]
  show ?thesis by (rule conj7_snoc [OF c FALLBACK_PATH_def])
qed

theorem send_file_fallback_then_404_witness:
  "fs (example_world no_files None (\<lambda>i. 1024)) ''/spiffs/x'' = None \<and>
   fs (example_world no_files None (\<lambda>i. 1024)) ''/spiffs/index.html'' = None \<and>
   (\<exists>s1 s2 w'. send_file (example_world no_files None (\<lambda>i. 1024)) ''/spiffs/x'' False = Some w' \<and>
      trace w' = [EvFopen ''/spiffs/x'' False, EvFopen ''/spiffs/index.html'' False,
           EvSend (header_404 (int (length body_404))) s1, EvSend body_404 s2] \<and>
      emits_404 (new_events (example_world no_files None (\<lambda>i. 1024)) w'))"
proof -
  let ?w = "example_world no_files None (\<lambda>i. 1024)"
  have n1: "fs ?w ''/spiffs/x'' = None" by (simp add: example_world_def no_files_def)
  have n2: "fs ?w ''/spiffs/index.html'' = None" by (simp add: example_world_def no_files_def)
  have n3: "trace ?w = []" by (simp add: example_world_def)
  note t = send_file_fallback_then_404 [of ?w "''/spiffs/x''" False]
  note t3 = t [THEN conjunct2, THEN conjunct2, THEN conjunct1]
  note t7 = t [THEN conjunct2, THEN conjunct2, THEN conjunct2, THEN conjunct2, THEN conjunct2,
      THEN conjunct2, THEN conjunct1]
  from mp [OF mp [OF t3 n1] n2] obtain s1 s2 w' where
    r: "send_file ?w ''/spiffs/x'' False = Some w'"
    and tr: "trace w' = trace ?w @ [EvFopen ''/spiffs/x'' False, EvFopen ''/spiffs/index.html'' False,
           EvSend (header_404 (int (length body_404))) s1, EvSend body_404 s2]"
    by (elim exE conjE)
  from tr have tr': "trace w' = [EvFopen ''/spiffs/x'' False, EvFopen ''/spiffs/index.html'' False,
           EvSend (header_404 (int (length body_404))) s1, EvSend body_404 s2]"
    by (simp only: n3 append_Nil)
  from mp [OF spec [OF t7] r] n1 n2 have e: "emits_404 (new_events ?w w')" by simp
  from r tr' e have "\<exists>s1 s2 w'. send_file ?w ''/spiffs/x'' False = Some w' \<and>
      trace w' = [EvFopen ''/spiffs/x'' False, EvFopen ''/spiffs/index.html'' False,
           EvSend (header_404 (int (length body_404))) s1, EvSend body_404 s2] \<and>
      emits_404 (new_events ?w w')" by (intro exI conjI)
  with n1 n2 show ?thesis by (intro conjI)
qed

section \<open>send\_file: streaming\<close>




lemma split_lines_nonempty: "split_lines s \<noteq> []"
  by (induction s) (auto simp: Let_def)













section \<open>handle\_client\<close>

lemma parse_request_path_defined:
  "1 < n \<Longrightarrow> \<exists>p. parse_request_path req n = Some p"
  by (auto simp: parse_request_path_def strncpy_def Let_def split: option.splits)

lemma sanitize_path_defined: "\<exists>p. sanitize_path rp PATH_BUF_SIZE = Some p"
  by (simp add: sanitize_path_def snprintf_def PATH_BUF_SIZE_def Let_def split: option.splits)

lemma sock_recv_facts:
  assumes "sock_recv w n = (r, buf, w1)"
  shows "fs w1 = fs w" "net w1 = net w" "trace w1 = trace w @ [EvRecv r]"
    "r \<le> 0 \<longleftrightarrow> (case inbound w of None \<Rightarrow> True | Some bytes \<Rightarrow> take n bytes = [])"
    "buf = (case inbound w of None \<Rightarrow> [] | Some bytes \<Rightarrow> take n bytes)"
  using assms by (auto simp: sock_recv_def Let_def min_def split: option.splits if_splits)

lemma file_event_counts:
  "list_all file_event evs \<Longrightarrow> count_list evs EvClose = 0 \<and> filter is_recv evs = []"
proof (induction evs)
  case Nil
  show ?case by simp
next
  case (Cons e evs)
  then show ?case by (cases e) simp_all
qed

lemma handle_client_post:
  assumes "handle_client w = Some w'"
  shows "client_post w w'"
proof -
  obtain r buf w1 where sr: "sock_recv w RECV_BUF_LEN = (r, buf, w1)"
    by (cases "sock_recv w RECV_BUF_LEN")
  note f = sock_recv_facts [OF sr]
  show ?thesis
  proof (cases "r \<le> 0")
    case True
    with assms sr have "w' = log_event w1 EvClose" by (simp add: handle_client_def)
    then have "trace w' = trace w @ [EvRecv r] @ [] @ [EvClose]" "fs w' = fs w"
      using f by simp_all
    with True show ?thesis unfolding client_post_def by blast
  next
    case False
    obtain rp where p: "parse_request_path (cstr buf) PATH_BUF_SIZE = Some rp"
      using parse_request_path_defined [of PATH_BUF_SIZE] by (auto simp: PATH_BUF_SIZE_def)
    obtain sp where s: "sanitize_path (Some rp) PATH_BUF_SIZE = Some sp"
      using sanitize_path_defined by blast
    from assms sr False p s obtain w2 where sf: "send_file w1 sp False = Some w2"
      and w': "w' = log_event (log_event w2 EvShutdown) EvClose"
      by (auto simp: handle_client_def split: option.splits)
    from send_file_post [OF sf]
    have "\<exists>evs. trace w2 = trace w1 @ evs \<and> list_all file_event evs" and fs2: "fs w2 = fs w1"
      by (simp_all add: file_post_def) blast
    then obtain evs' where e: "trace w2 = trace w1 @ evs'" "list_all file_event evs'"
      by (elim exE conjE)
    have "trace w' = trace w @ [EvRecv r] @ (evs' @ [EvShutdown]) @ [EvClose]"
      using w' e(1) f(3) by simp
    moreover have "fs w' = fs w" using w' fs2 f(1) by simp
    moreover have "0 < r" using False by simp
    ultimately show ?thesis using e(2) unfolding client_post_def by blast
  qed
qed

lemma handle_client_total:
  assumes "\<forall>i. net w i \<noteq> 0"
  shows "\<exists>w'. handle_client w = Some w'"
proof -
  obtain r buf w1 where sr: "sock_recv w RECV_BUF_LEN = (r, buf, w1)"
    by (cases "sock_recv w RECV_BUF_LEN")
  note f = sock_recv_facts [OF sr]
  obtain rp where p: "parse_request_path (cstr buf) PATH_BUF_SIZE = Some rp"
    using parse_request_path_defined [of PATH_BUF_SIZE] by (auto simp: PATH_BUF_SIZE_def)
  obtain sp where s: "sanitize_path (Some rp) PATH_BUF_SIZE = Some sp"
    using sanitize_path_defined by blast
  have "\<forall>i. net w1 i \<noteq> 0" using assms f(2) by simp
  from send_file_total [OF this] obtain w2 where "send_file w1 sp False = Some w2" by blast
  with sr p s show ?thesis by (simp add: handle_client_def)
qed

lemma client_post_counts:
  assumes "client_post w w'"
  shows "length (filter is_recv (new_events w w')) = 1 \<and> count_list (new_events w w') EvClose = 1"
proof -
  from assms obtain r evs where t: "trace w' = trace w @ ([EvRecv r] @ evs @ [EvClose])"
    and c: "(r \<le> 0 \<and> evs = []) \<or>
         (0 < r \<and> (\<exists>evs'. evs = evs' @ [EvShutdown] \<and> list_all file_event evs'))"
    unfolding client_post_def by (elim exE conjE) simp
  have "count_list evs EvClose = 0 \<and> filter is_recv evs = []"
    using c
  proof
    assume "r \<le> 0 \<and> evs = []"
    then show ?thesis by simp
  next
    assume "0 < r \<and> (\<exists>evs'. evs = evs' @ [EvShutdown] \<and> list_all file_event evs')"
    then obtain evs' where "evs = evs' @ [EvShutdown]" "list_all file_event evs'" by blast
    then show ?thesis using file_event_counts [of evs'] by simp
  qed
  then show ?thesis by (simp add: new_events_append [OF t])
qed


lemma handle_client_empty:
  assumes "inbound w = None \<or> inbound w = Some []"
  shows "\<exists>r w'. handle_client w = Some w' \<and> r \<le> 0 \<and> new_events w w' = [EvRecv r, EvClose]"
proof -
  obtain r buf w1 where sr: "sock_recv w RECV_BUF_LEN = (r, buf, w1)"
    by (cases "sock_recv w RECV_BUF_LEN")
  note f = sock_recv_facts [OF sr]
  from assms f(4) have r: "r \<le> 0" by auto
  with sr have h: "handle_client w = Some (log_event w1 EvClose)" by (simp add: handle_client_def)
  have "trace (log_event w1 EvClose) = trace w @ [EvRecv r, EvClose]" using f(3) by simp
  then have "new_events w (log_event w1 EvClose) = [EvRecv r, EvClose]" by (rule new_events_append)
  with h r show ?thesis by blast
qed

lemma sock_recv_Some:
  "inbound w = Some bytes \<Longrightarrow>
   sock_recv w n =
     (int (length (take n bytes)), take n bytes,
      log_event (w\<lparr>inbound := Some (drop n bytes)\<rparr>) (EvRecv (int (length (take n bytes)))))"
  by (simp add: sock_recv_def Let_def)

lemma handle_client_nonempty:
  assumes "inbound w = Some bytes" "bytes \<noteq> []"
  shows "\<exists>rp sp. parse_request_path (cstr (take RECV_BUF_LEN bytes)) PATH_BUF_SIZE = Some rp \<and>
           sanitize_path (Some rp) PATH_BUF_SIZE = Some sp \<and>
           handle_client w =
             map_option (\<lambda>w2. log_event (log_event w2 EvShutdown) EvClose)
               (send_file (log_event (w\<lparr>inbound := Some (drop RECV_BUF_LEN bytes)\<rparr>)
                             (EvRecv (int (length (take RECV_BUF_LEN bytes))))) sp False)"
proof -
  let ?buf = "take RECV_BUF_LEN bytes"
  let ?w1 = "log_event (w\<lparr>inbound := Some (drop RECV_BUF_LEN bytes)\<rparr>) (EvRecv (int (length ?buf)))"
  obtain rp where p: "parse_request_path (cstr ?buf) PATH_BUF_SIZE = Some rp"
    using parse_request_path_defined [of PATH_BUF_SIZE] by (auto simp: PATH_BUF_SIZE_def)
  obtain sp where s: "sanitize_path (Some rp) PATH_BUF_SIZE = Some sp"
    using sanitize_path_defined by blast
  have "?buf \<noteq> []" using assms(2) by (simp add: RECV_BUF_LEN_def)
  then have pos: "\<not> int (length ?buf) \<le> 0" by simp
  have "handle_client w =
          (case send_file ?w1 sp False of None \<Rightarrow> None
           | Some w2 \<Rightarrow> Some (log_event (log_event w2 EvShutdown) EvClose))"
    unfolding handle_client_def sock_recv_Some [OF assms(1)] prod.case
    by (simp only: pos if_False p s option.case)
  also have "\<dots> = map_option (\<lambda>w2. log_event (log_event w2 EvShutdown) EvClose)
                     (send_file ?w1 sp False)"
    by (cases "send_file ?w1 sp False") simp_all
  finally show ?thesis using p s by blast
qed

lemma sock_send_full:
  assumes "int (length buf) \<le> net w (nsend w)"
  shows "sock_send w buf =
         (int (length buf),
          w\<lparr>nsend := nsend w + 1, trace := trace w @ [EvSend buf (int (length buf))]\<rparr>)"
proof -
  have "\<not> net w (nsend w) < 0" using assms by linarith
  moreover have "min (net w (nsend w)) (int (length buf)) = int (length buf)"
    using assms by simp
  ultimately show ?thesis by (simp add: sock_send_def Let_def)
qed

lemma header_404_length: "length (header_404 (int (length body_404))) < 256"
  by (simp add: header_404_text CRLF_def)

lemma send_404_full:
  assumes "\<forall>i. 256 \<le> net w i"
  shows "\<exists>w'. send_404 w = Some w' \<and>
           trace w' = trace w @ [EvSend (header_404 (int (length body_404)))
                                   (int (length (header_404 (int (length body_404))))),
                                 EvSend body_404 (int (length body_404))] \<and>
           fs w' = fs w"
proof -
  let ?h = "header_404 (int (length body_404))"
  let ?w1 = "w\<lparr>nsend := nsend w + 1, trace := trace w @ [EvSend ?h (int (length ?h))]\<rparr>"
  let ?w2 = "?w1\<lparr>nsend := nsend ?w1 + 1,
                  trace := trace ?w1 @ [EvSend body_404 (int (length body_404))]\<rparr>"
  have "int (length ?h) \<le> 256" using header_404_length by simp
  also have "256 \<le> net w (nsend w)" using assms by (rule spec)
  finally have "int (length ?h) \<le> net w (nsend w)" .
  from sock_send_full [OF this] have s1: "sock_send w ?h = (int (length ?h), ?w1)" .
  have "int (length body_404) \<le> 256" by (simp add: body_404_def)
  also have "256 \<le> net w (nsend ?w1)" using assms by (rule spec)
  also have "net w = net ?w1" by simp
  finally have "int (length body_404) \<le> net ?w1 (nsend ?w1)" .
  from sock_send_full [OF this]
  have s2: "sock_send ?w1 body_404 = (int (length body_404), ?w2)" .
  have tk: "take (nat (int (length body_404))) body_404 = body_404" by simp
  have r: "send_404 w = Some ?w2"
    by (simp only: send_404_def Let_def header_404_fits option.case s1 prod.case tk s2)
  have t: "trace ?w2 = trace w @ [EvSend ?h (int (length ?h)),
                                 EvSend body_404 (int (length body_404))]"
    by simp
  have f: "fs ?w2 = fs w" by simp
  from r t f show ?thesis by (intro exI conjI)
qed


lemma accepted_found:
  "accepted ([EvFopen p True, EvSend h (int (length h))] @ evs @ [EvFclose]) = h @ accepted evs"
  by (simp add: accepted_def)

lemma send_file_response_found:
  assumes "fs w p = Some c" "\<forall>i. 256 \<le> net w i"
  shows "\<exists>w' evs. send_file w p fb = Some w' \<and> trace w' = trace w @ evs \<and>
           accepted evs = header_200 (get_mime_type p) (long_of_nat (length c)) @ c \<and>
           list_all file_event evs \<and> fs w' = fs w"
proof -
  let ?h = "header_200 (get_mime_type p) (long_of_nat (length c))"
  let ?w0 = "log_event w (EvFopen p True)"
  have nz: "\<forall>i. net w i \<noteq> 0"
  proof
    fix i
    from assms(2) have "256 \<le> net w i" by (rule spec)
    then show "net w i \<noteq> 0" by simp
  qed
  have nf: "\<not> (\<exists>i. net w i < 0)"
  proof
    assume "\<exists>i. net w i < 0"
    then obtain i where "net w i < 0" ..
    moreover from assms(2) have "256 \<le> net w i" by (rule spec)
    ultimately show False by simp
  qed
  from send_file_total [OF nz] obtain w' where r: "send_file w p fb = Some w'" by blast
  from send_file_found_post [OF assms(1) r] obtain s evs where
    t: "trace w' = trace w @ [EvFopen p True, EvSend ?h s] @ evs @ [EvFclose]"
    and s: "s = fst (sock_send ?w0 ?h)"
    and f: "fs w' = fs w"
    and o: "(list_all send_ok evs \<and> accepted evs = c) \<or>
            ((\<exists>i. net w i < 0) \<and>
             (\<exists>evs0 b s'. evs = evs0 @ [EvSend b s'] \<and> s' < 0 \<and> list_all send_ok evs0))"
    by (elim exE conjE)
  from o nf have e: "list_all send_ok evs" "accepted evs = c" by blast+
  have "int (length ?h) \<le> 256" using header_200_length [of p "length c"] by simp
  also have "256 \<le> net w (nsend ?w0)" using assms(2) by (rule spec)
  also have "net w = net ?w0" by simp
  finally have "int (length ?h) \<le> net ?w0 (nsend ?w0)" .
  from sock_send_full [OF this] s have s': "s = int (length ?h)" by simp
  let ?evs = "[EvFopen p True, EvSend ?h (int (length ?h))] @ evs @ [EvFclose]"
  have t': "trace w' = trace w @ ?evs" using t s' by simp
  have a: "accepted ?evs = ?h @ c" by (simp only: accepted_found e(2))
  have fe: "list_all file_event ?evs" using send_ok_file_event [OF e(1)] by simp
  from r t' a fe f show ?thesis by (intro exI conjI)
qed

lemma send_file_response_fallback:
  assumes "\<forall>i. 256 \<le> net w i"
  shows "\<exists>w' evs. send_file w p True = Some w' \<and> trace w' = trace w @ evs \<and>
           accepted evs = response_of_file (fs w) p True \<and>
           list_all file_event evs \<and> fs w' = fs w"
proof (cases "fs w p")
  case (Some c)
  from send_file_response_found [OF Some assms, of True] Some show ?thesis
    by (simp add: response_of_file_def)
next
  case None
  let ?w0 = "log_event w (EvFopen p False)"
  let ?h = "header_404 (int (length body_404))"
  have "\<forall>i. 256 \<le> net ?w0 i" using assms by simp
  from send_404_full [OF this] obtain w' where r: "send_404 ?w0 = Some w'"
    and t: "trace w' = trace ?w0 @ [EvSend ?h (int (length ?h)),
                                 EvSend body_404 (int (length body_404))]"
    and f: "fs w' = fs ?w0" by (elim exE conjE)
  let ?evs = "[EvFopen p False, EvSend ?h (int (length ?h)), EvSend body_404 (int (length body_404))]"
  have r': "send_file w p True = Some w'" using r None by (simp add: send_file_missing)
  have t': "trace w' = trace w @ ?evs" using t by simp
  have a: "accepted ?evs = response_of_file (fs w) p True"
    using None by (simp add: accepted_def response_of_file_def)
  have fe: "list_all file_event ?evs" by simp
  have f': "fs w' = fs w" using f by simp
  from r' t' a fe f' show ?thesis by (intro exI conjI)
qed

lemma send_file_response:
  assumes "\<forall>i. 256 \<le> net w i"
  shows "\<exists>w' evs. send_file w p fb = Some w' \<and> trace w' = trace w @ evs \<and>
           accepted evs = response_of_file (fs w) p fb \<and>
           list_all file_event evs \<and> fs w' = fs w"
proof (cases fb)
  case True
  with send_file_response_fallback [OF assms, of p] show ?thesis by simp
next
  case False
  show ?thesis
  proof (cases "fs w p")
    case (Some c)
    from send_file_response_found [OF Some assms, of fb] Some show ?thesis
      by (simp add: response_of_file_def)
  next
    case None
    let ?w0 = "log_event w (EvFopen p False)"
    have "\<forall>i. 256 \<le> net ?w0 i" using assms by simp
    from send_file_response_fallback [OF this, of FALLBACK_PATH] obtain w' evs where
      r: "send_file ?w0 FALLBACK_PATH True = Some w'"
      and t: "trace w' = trace ?w0 @ evs"
      and a: "accepted evs = response_of_file (fs ?w0) FALLBACK_PATH True"
      and fe: "list_all file_event evs" and f: "fs w' = fs ?w0"
      by (elim exE conjE)
    have r': "send_file w p fb = Some w'" using r None False by (simp add: send_file_missing)
    have t': "trace w' = trace w @ (EvFopen p False # evs)" using t by simp
    have "response_of_file (fs w) p fb = response_of_file (fs w) FALLBACK_PATH True"
      using None False by (simp add: response_of_file_def split: option.splits)
    then have a': "accepted (EvFopen p False # evs) = response_of_file (fs w) p fb"
      using a by (simp add: accepted_def)
    have fe': "list_all file_event (EvFopen p False # evs)" using fe by simp
    have f': "fs w' = fs w" using f by simp
    from r' t' a' fe' f' show ?thesis by (intro exI conjI)
  qed
qed

lemma handle_client_response:
  assumes "\<forall>i. 256 \<le> net w i"
  shows "\<exists>w'. handle_client w = Some w' \<and>
           accepted (new_events w w') = response_of_request (fs w) (inbound w) \<and> fs w' = fs w"
proof -
  have empty: ?thesis if e: "inbound w = None \<or> inbound w = Some []"
  proof -
    from handle_client_empty [OF e] obtain r w' where h: "handle_client w = Some w'"
      and n: "new_events w w' = [EvRecv r, EvClose]" by blast
    have a: "accepted (new_events w w') = response_of_request (fs w) (inbound w)"
      using e by (auto simp: n accepted_def response_of_request_def)
    from handle_client_post [OF h] have f: "fs w' = fs w" by (auto simp: client_post_def)
    from h a f show ?thesis by (intro exI conjI)
  qed
  show ?thesis
  proof (cases "inbound w")
    case None
    then have "inbound w = None \<or> inbound w = Some []" by simp
    then show ?thesis by (rule empty)
  next
    case (Some bytes)
    show ?thesis
    proof (cases "bytes = []")
      case True
      with Some have "inbound w = None \<or> inbound w = Some []" by simp
      then show ?thesis by (rule empty)
    next
      case False
      let ?buf = "take RECV_BUF_LEN bytes"
      let ?w1 = "log_event (w\<lparr>inbound := Some (drop RECV_BUF_LEN bytes)\<rparr>) (EvRecv (int (length ?buf)))"
      from handle_client_nonempty [OF Some False] obtain rp sp where
        p: "parse_request_path (cstr ?buf) PATH_BUF_SIZE = Some rp"
        and s: "sanitize_path (Some rp) PATH_BUF_SIZE = Some sp"
        and h: "handle_client w =
             map_option (\<lambda>w2. log_event (log_event w2 EvShutdown) EvClose)
               (send_file ?w1 sp False)"
        by (elim exE conjE)
      have "\<forall>i. 256 \<le> net ?w1 i" using assms by simp
      from send_file_response [OF this, of sp False] obtain w2 evs where
        r: "send_file ?w1 sp False = Some w2" and t: "trace w2 = trace ?w1 @ evs"
        and a: "accepted evs = response_of_file (fs ?w1) sp False"
        and f: "fs w2 = fs ?w1" by (elim exE conjE)
      let ?w' = "log_event (log_event w2 EvShutdown) EvClose"
      have h': "handle_client w = Some ?w'" using h r by simp
      have "trace ?w' = trace w @ ([EvRecv (int (length ?buf))] @ evs @ [EvShutdown, EvClose])"
        using t by simp
      then have n: "new_events w ?w' = [EvRecv (int (length ?buf))] @ evs @ [EvShutdown, EvClose]"
        by (rule new_events_append)
      have nb: "?buf \<noteq> []" using False by (simp add: RECV_BUF_LEN_def)
      have "response_of_request (fs w) (inbound w) = response_of_file (fs w) sp False"
        using Some nb p s by (simp add: response_of_request_def)
      then have a': "accepted (new_events w ?w') = response_of_request (fs w) (inbound w)"
        using a by (simp add: n accepted_def)
      have f': "fs ?w' = fs w" using f by simp
      from h' a' f' show ?thesis by (intro exI conjI)
    qed
  qed
qed


lemma client_post_events:
  assumes "client_post w w'"
  shows "\<exists>r evs. new_events w w' = [EvRecv r] @ evs @ [EvClose] \<and>
           ((r \<le> 0 \<and> evs = []) \<or>
            (0 < r \<and> (\<exists>evs'. evs = evs' @ [EvShutdown] \<and> list_all file_event evs')))"
proof -
  from assms obtain r evs where t: "trace w' = trace w @ ([EvRecv r] @ evs @ [EvClose])"
    and c: "(r \<le> 0 \<and> evs = []) \<or>
         (0 < r \<and> (\<exists>evs'. evs = evs' @ [EvShutdown] \<and> list_all file_event evs'))"
    unfolding client_post_def by (elim exE conjE) simp
  from new_events_append [OF t] c show ?thesis by (intro exI conjI)
qed

text \<open>
  C8.  Every call of \<open>handle_client\<close> that returns has made exactly one \<open>recv\<close>,
  as its first call, and exactly one \<open>close\<close>, as its last call.  When \<open>recv\<close>
  returned zero or less, these two are all its calls: nothing is sent.  Otherwise the
  calls between them are those of \<open>send_file\<close> (\<open>fopen\<close>, \<open>send\<close>, \<open>fclose\<close>),
  whatever it did (file found, fallback, 404, aborted transfer), followed by the
  \<open>shutdown\<close>; \<open>send_file\<close> is run on the sanitized parsed path, not as a fallback
  attempt.  The call returns whenever no \<open>send\<close> accepts zero bytes.
\<close>

theorem handle_client_closes_once:
  "(\<forall>w'. handle_client w = Some w' \<longrightarrow>
      length (filter is_recv (new_events w w')) = 1 \<and>
      count_list (new_events w w') EvClose = 1 \<and>
      (\<exists>r evs. new_events w w' = [EvRecv r] @ evs @ [EvClose] \<and>
         ((r \<le> 0 \<and> evs = []) \<or>
          (0 < r \<and> (\<exists>evs'. evs = evs' @ [EvShutdown] \<and> list_all file_event evs'))))) \<and>
   (inbound w = None \<or> inbound w = Some [] \<longrightarrow>
      (\<exists>r w'. handle_client w = Some w' \<and> r \<le> 0 \<and> new_events w w' = [EvRecv r, EvClose])) \<and>
   (\<forall>bytes. inbound w = Some bytes \<longrightarrow> bytes \<noteq> [] \<longrightarrow>
      (\<exists>rp sp. parse_request_path (cstr (take RECV_BUF_LEN bytes)) PATH_BUF_SIZE = Some rp \<and>
         sanitize_path (Some rp) PATH_BUF_SIZE = Some sp \<and>
         handle_client w =
           map_option (\<lambda>w2. log_event (log_event w2 EvShutdown) EvClose)
             (send_file (log_event (w\<lparr>inbound := Some (drop RECV_BUF_LEN bytes)\<rparr>)
                           (EvRecv (int (length (take RECV_BUF_LEN bytes))))) sp False))) \<and>
   ((\<forall>i. net w i \<noteq> 0) \<longrightarrow> (\<exists>w'. handle_client w = Some w'))"
proof (intro conjI impI allI)
  fix w' assume h: "handle_client w = Some w'"
  from client_post_counts [OF handle_client_post [OF h]]
  show "length (filter is_recv (new_events w w')) = 1" ..
next
  fix w' assume h: "handle_client w = Some w'"
  from client_post_counts [OF handle_client_post [OF h]]
  show "count_list (new_events w w') EvClose = 1" ..
next
  fix w' assume h: "handle_client w = Some w'"
  show "\<exists>r evs. new_events w w' = [EvRecv r] @ evs @ [EvClose] \<and>
         ((r \<le> 0 \<and> evs = []) \<or>
          (0 < r \<and> (\<exists>evs'. evs = evs' @ [EvShutdown] \<and> list_all file_event evs')))"
    by (rule client_post_events [OF handle_client_post [OF h]])
next
  assume "inbound w = None \<or> inbound w = Some []"
  then show "\<exists>r w'. handle_client w = Some w' \<and> r \<le> 0 \<and> new_events w w' = [EvRecv r, EvClose]"
    by (rule handle_client_empty)
next
  fix bytes assume "inbound w = Some bytes" "bytes \<noteq> []"
  then show "\<exists>rp sp. parse_request_path (cstr (take RECV_BUF_LEN bytes)) PATH_BUF_SIZE = Some rp \<and>
         sanitize_path (Some rp) PATH_BUF_SIZE = Some sp \<and>
         handle_client w =
           map_option (\<lambda>w2. log_event (log_event w2 EvShutdown) EvClose)
             (send_file (log_event (w\<lparr>inbound := Some (drop RECV_BUF_LEN bytes)\<rparr>)
                           (EvRecv (int (length (take RECV_BUF_LEN bytes))))) sp False)"
    by (rule handle_client_nonempty)
next
  assume "\<forall>i. net w i \<noteq> 0"
  then show "\<exists>w'. handle_client w = Some w'" by (rule handle_client_total)
qed

theorem handle_client_closes_once_witness:
  "(\<forall>i. net (example_world example_files (Some example_request) (\<lambda>i. 5)) i \<noteq> 0) \<and>
   (\<exists>w'. handle_client (example_world example_files (Some example_request) (\<lambda>i. 5)) = Some w' \<and>
      length (filter is_recv
        (new_events (example_world example_files (Some example_request) (\<lambda>i. 5)) w')) = 1 \<and>
      count_list (new_events (example_world example_files (Some example_request) (\<lambda>i. 5)) w')
        EvClose = 1) \<and>
   inbound (example_world example_files None (\<lambda>i. 5)) = None \<and>
   (\<exists>r w'. handle_client (example_world example_files None (\<lambda>i. 5)) = Some w' \<and> r \<le> 0 \<and>
      new_events (example_world example_files None (\<lambda>i. 5)) w' = [EvRecv r, EvClose])"
proof -
  let ?w = "example_world example_files (Some example_request) (\<lambda>i. 5)"
  let ?v = "example_world example_files None (\<lambda>i. 5)"
  have n: "\<forall>i. net ?w i \<noteq> 0" by (simp add: example_world_def)
  have i: "inbound ?v = None" by (simp add: example_world_def)
  note t = handle_client_closes_once [of ?w]
  note u = handle_client_closes_once [of ?v]
  from mp [OF t [THEN conjunct2, THEN conjunct2, THEN conjunct2] n]
  obtain w' where h: "handle_client ?w = Some w'" ..
  from mp [OF spec [OF t [THEN conjunct1]] h]
  have c: "length (filter is_recv (new_events ?w w')) = 1" "count_list (new_events ?w w') EvClose = 1"
    by simp_all
  from h c have a: "\<exists>w'. handle_client ?w = Some w' \<and>
      length (filter is_recv (new_events ?w w')) = 1 \<and> count_list (new_events ?w w') EvClose = 1"
    by (intro exI conjI)
  from i have "inbound ?v = None \<or> inbound ?v = Some []" ..
  from mp [OF u [THEN conjunct2, THEN conjunct1] this]
  have b: "\<exists>r w'. handle_client ?v = Some w' \<and> r \<le> 0 \<and> new_events ?v w' = [EvRecv r, EvClose]" .
  from n a i b show ?thesis by (intro conjI)
qed

text \<open>
  When no \<open>send\<close> fails and every \<open>send\<close> accepts at least 256 bytes (so that a
  header and the 404 body are accepted whole, while a file chunk may still be accepted
  in pieces), the bytes put on the connection are a function of the files and of the
  received bytes: two runs on environments that agree on these two, and differ in
  anything else, both return and send the same bytes.  Neither run changes the files.
\<close>

lemma handle_client_same_response:
  assumes "fs w1 = fs w2" "inbound w1 = inbound w2" "\<forall>i. 256 \<le> net w1 i" "\<forall>i. 256 \<le> net w2 i"
  shows "\<exists>w1' w2'. handle_client w1 = Some w1' \<and> handle_client w2 = Some w2' \<and>
           accepted (new_events w1 w1') = accepted (new_events w2 w2') \<and>
           accepted (new_events w1 w1') = response_of_request (fs w1) (inbound w1) \<and>
           fs w1' = fs w1 \<and> fs w2' = fs w2"
proof -
  from handle_client_response [OF assms(3)] obtain w1' where
    h1: "handle_client w1 = Some w1'"
    and a1: "accepted (new_events w1 w1') = response_of_request (fs w1) (inbound w1)"
    and f1: "fs w1' = fs w1" by (elim exE conjE)
  from handle_client_response [OF assms(4)] obtain w2' where
    h2: "handle_client w2 = Some w2'"
    and a2: "accepted (new_events w2 w2') = response_of_request (fs w2) (inbound w2)"
    and f2: "fs w2' = fs w2" by (elim exE conjE)
  have e: "accepted (new_events w1 w1') = accepted (new_events w2 w2')"
    by (simp only: a1 a2 assms(1,2))
  from h1 h2 e a1 f1 f2 show ?thesis by (intro exI conjI)
qed

lemma handle_client_same_response_example:
  "(\<forall>i. 256 \<le> net (example_world example_files (Some example_request) (\<lambda>i. 256)) i) \<and>
   (\<forall>i. 256 \<le> net (example_world example_files (Some example_request) (\<lambda>i. 1024 + int i)) i) \<and>
   (\<exists>w1' w2'.
      handle_client (example_world example_files (Some example_request) (\<lambda>i. 256)) = Some w1' \<and>
      handle_client (example_world example_files (Some example_request) (\<lambda>i. 1024 + int i)) = Some w2' \<and>
      accepted (new_events (example_world example_files (Some example_request) (\<lambda>i. 256)) w1') =
      accepted (new_events (example_world example_files (Some example_request) (\<lambda>i. 1024 + int i)) w2') \<and>
      accepted (new_events (example_world example_files (Some example_request) (\<lambda>i. 256)) w1') =
        header_200 ''application/javascript'' 10 @ ''let x = 1;'')"
proof -
  let ?w1 = "example_world example_files (Some example_request) (\<lambda>i. 256)"
  let ?w2 = "example_world example_files (Some example_request) (\<lambda>i. 1024 + int i)"
  have f: "fs ?w1 = fs ?w2" by (simp add: example_world_def)
  have i: "inbound ?w1 = inbound ?w2" by (simp add: example_world_def)
  have n1: "\<forall>i. 256 \<le> net ?w1 i" by (simp add: example_world_def)
  have n2: "\<forall>i. 256 \<le> net ?w2 i" by (simp add: example_world_def)
  have p: "parse_request_path (cstr (take RECV_BUF_LEN example_request)) PATH_BUF_SIZE = Some ''/app.js''"
    by code_simp
  have s: "sanitize_path (Some ''/app.js'') PATH_BUF_SIZE = Some ''/spiffs/app.js''"
    by code_simp
  have m: "get_mime_type ''/spiffs/app.js'' = ''application/javascript''" by code_simp
  have ne: "take RECV_BUF_LEN example_request \<noteq> []" by code_simp
  have l: "long_of_nat (length ''let x = 1;'') = 10"
    by (simp add: long_of_nat_small)
  have c: "example_files ''/spiffs/app.js'' = Some ''let x = 1;''"
    by (simp add: example_files_def)
  have f1: "fs ?w1 = example_files" "inbound ?w1 = Some example_request"
    by (simp_all add: example_world_def)
  have r: "response_of_request (fs ?w1) (inbound ?w1) =
           header_200 ''application/javascript'' 10 @ ''let x = 1;''"
    unfolding f1 response_of_request_def response_of_file_def option.case p s c m l
    using ne by (simp only: if_False)
  from handle_client_same_response [OF f i n1 n2] obtain w1' w2' where
    "handle_client ?w1 = Some w1'" "handle_client ?w2 = Some w2'"
    "accepted (new_events ?w1 w1') = accepted (new_events ?w2 w2')"
    "accepted (new_events ?w1 w1') = response_of_request (fs ?w1) (inbound ?w1)"
    by (elim exE conjE)
  then have "\<exists>w1' w2'. handle_client ?w1 = Some w1' \<and> handle_client ?w2 = Some w2' \<and>
      accepted (new_events ?w1 w1') = accepted (new_events ?w2 w2') \<and>
      accepted (new_events ?w1 w1') = header_200 ''application/javascript'' 10 @ ''let x = 1;''"
    unfolding r by (intro exI conjI)
  with n1 n2 show ?thesis by (intro conjI)
qed

text \<open>
  C9 at the request \<open>GET /app.js\<close> on the same files, over two transports on which no
  \<open>send\<close> fails: one accepts 5 bytes per call, the other 256.  The return value of
  \<open>send\<close> is not looked at for the header, so the first run puts only the first 5
  bytes of the header on the connection, followed by the whole file (its chunk loop
  sends the rest of a chunk again); the second run puts the whole response there.  The
  two runs answer the same request with different bytes.
\<close>

theorem handle_client_short_header_write:
  "response_bytes (example_world example_files (Some example_request) transport_5) =
     Some ''HTTP/let x = 1;'' \<and>
   response_bytes (example_world example_files (Some example_request) transport_256) =
     Some (''HTTP/1.1 200 OK'' @ [CHR 0x0D, CHR 0x0A] @
           ''Content-Type: application/javascript'' @ [CHR 0x0D, CHR 0x0A] @
           ''Content-Length: 10'' @ [CHR 0x0D, CHR 0x0A] @
           ''Connection: close'' @ [CHR 0x0D, CHR 0x0A] @ [CHR 0x0D, CHR 0x0A] @
           ''let x = 1;'') \<and>
   response_bytes (example_world example_files (Some example_request) transport_5) \<noteq>
   response_bytes (example_world example_files (Some example_request) transport_256)"
  by code_simp

end
